theory Spec2Isabelle
  imports Complex_Main "HOL-Library.Word"
begin

section \<open>Signals and the library templates used by RecoverEmailCircuit\<close>

text \<open>
  A signal of the circuit is an element of the scalar field of BN254, kept here as the
  integer in \<open>{0..<p_field}\<close> that represents it. Field addition, subtraction and
  multiplication reduce modulo \<open>p_field\<close>.
\<close>

type_synonym signal = int

definition p_field :: int where
  "p_field = 21888242871839275222246405745257275088548364400416034343698204186575808495617"

definition fadd :: "signal \<Rightarrow> signal \<Rightarrow> signal" where
  "fadd a b = (a + b) mod p_field"

definition fsub :: "signal \<Rightarrow> signal \<Rightarrow> signal" where
  "fsub a b = (a - b) mod p_field"

definition fmul :: "signal \<Rightarrow> signal \<Rightarrow> signal" where
  "fmul a b = (a * b) mod p_field"

text \<open>
  The templates below belong to circomlib and to @zk-email/circuits; the circuit file
  includes them, their text is not part of the repository. Each is taken by the
  contract the circuit relies on: the value it assigns to its output for inputs in the
  range the template is instantiated for.
\<close>

definition IsZero :: "signal \<Rightarrow> signal" where
  \<comment> \<open>circomlib \<open>IsZero\<close>: \<open>out\<close> is 1 when \<open>in\<close> is 0 and 0 otherwise.\<close>
  "IsZero x = (if x = 0 then 1 else 0)"

definition Num2Bits :: "nat \<Rightarrow> signal \<Rightarrow> bool" where
  \<comment> \<open>circomlib \<open>Num2Bits(n)\<close>: satisfiable exactly when \<open>in\<close> has an n-bit
      decomposition.\<close>
  "Num2Bits n x = (0 \<le> x \<and> x < 2 ^ n)"

definition LessThan :: "nat \<Rightarrow> signal \<Rightarrow> signal \<Rightarrow> signal" where
  \<comment> \<open>circomlib \<open>LessThan(n)\<close> on n-bit inputs.\<close>
  "LessThan n a b = (if a < b then 1 else 0)"

definition LessEqThan :: "nat \<Rightarrow> signal \<Rightarrow> signal \<Rightarrow> signal" where
  \<comment> \<open>circomlib \<open>LessEqThan(n)\<close> on n-bit inputs.\<close>
  "LessEqThan n a b = (if a \<le> b then 1 else 0)"

section \<open>Block count of the sender-binding hash\<close>

text \<open>
  RecoverEmailCircuit.circom (privacy-preserving variant), lines 577-637: eight
  comparisons of \<open>preimage_len\<close> against 55, 119, ..., 503 select one of nine block
  indicators; \<open>numBlocks\<close> is their weighted sum.
\<close>

definition isBlock :: "signal \<Rightarrow> signal list" where
  "isBlock preimage_len =
    (let le55 = LessEqThan 9 preimage_len 55;
         le119 = LessEqThan 9 preimage_len 119;
         le183 = LessEqThan 9 preimage_len 183;
         le247 = LessEqThan 9 preimage_len 247;
         le311 = LessEqThan 9 preimage_len 311;
         le375 = LessEqThan 9 preimage_len 375;
         le439 = LessEqThan 9 preimage_len 439;
         le503 = LessEqThan 9 preimage_len 503
     in [le55,
         fsub le119 le55,
         fsub le183 le119,
         fsub le247 le183,
         fsub le311 le247,
         fsub le375 le311,
         fsub le439 le375,
         fsub le503 le439,
         fsub 1 le503])"

definition isBlock_sum_ok :: "signal \<Rightarrow> bool" where
  \<comment> \<open>\<open>isBlock1 + ... + isBlock9 === 1\<close>\<close>
  "isBlock_sum_ok preimage_len = (foldl fadd 0 (isBlock preimage_len) = 1)"

definition numBlocks :: "signal \<Rightarrow> signal" where
  "numBlocks preimage_len =
    foldl fadd 0 (map (\<lambda>(k, b). fmul k b) (zip [1, 2, 3, 4, 5, 6, 7, 8, 9] (isBlock preimage_len)))"

definition preimage_padded_len :: "signal \<Rightarrow> signal" where
  "preimage_padded_len preimage_len = fmul (numBlocks preimage_len) 64"

definition blocks_direct :: "int \<Rightarrow> int" where
  \<comment> \<open>The spec's direct computation: \<open>blocks = ceil((L + 9) / 64)\<close>.\<close>
  "blocks_direct L = \<lceil>real_of_int (L + 9) / 64\<rceil>"

section \<open>Length range checks of the sender-binding hash\<close>

text \<open>
  RecoverEmailCircuit.circom (privacy-preserving variant), lines 452-457 and 569-575.
\<close>

definition preimage_len :: "signal \<Rightarrow> signal \<Rightarrow> signal" where
  "preimage_len from_addr_len subject_account_id_len =
     fadd (fadd from_addr_len 1) subject_account_id_len"

definition length_range_checks :: "signal \<Rightarrow> signal \<Rightarrow> bool" where
  "length_range_checks from_addr_len subject_account_id_len =
    (Num2Bits 8 from_addr_len \<and> Num2Bits 8 subject_account_id_len
      \<and> Num2Bits 9 (preimage_len from_addr_len subject_account_id_len))"

section \<open>Anchored field verification\<close>

text \<open>
  The window templates of @zk-email/circuits. \<open>VarShiftLeft\<close> and \<open>SelectSubArray\<close>
  give the values of the outputs; they are the outputs of the templates whenever the
  templates' own range constraints hold, which \<open>SelectSubArray_checked\<close> below adds:
  the shift has \<open>log2Ceil(maxArrayLen)\<close> bits and the length passes the comparison
  \<open>GreaterThan(log2Ceil(maxSubArrayLen))\<close> against every window position.
\<close>

definition VarShiftLeft :: "signal list \<Rightarrow> signal \<Rightarrow> nat \<Rightarrow> signal list" where
  \<comment> \<open>Modelled from the spec: the template \<open>VarShiftLeft(maxArrayLen, maxOutArrayLen)\<close>
      of @zk-email/circuits is not under src/. It returns the first \<open>maxOutArrayLen\<close>
      entries of the input rotated left by \<open>shift\<close> positions; \<open>maxArrayLen\<close> is the
      length of the input. The template constrains \<open>shift\<close> to
      \<open>log2Ceil(maxArrayLen)\<close> bits: see \<open>VarShiftLeft_range\<close>.\<close>
  "VarShiftLeft inp shift maxOutArrayLen = take maxOutArrayLen (rotate (nat shift) inp)"

definition SelectSubArray :: "signal list \<Rightarrow> signal \<Rightarrow> signal \<Rightarrow> nat \<Rightarrow> signal list" where
  \<comment> \<open>Modelled from the spec: the template \<open>SelectSubArray(maxArrayLen, maxSubArrayLen)\<close>
      of @zk-email/circuits is not under src/. Its output is the window of
      \<open>maxSubArrayLen\<close> entries that starts at \<open>startIndex\<close>, with every position
      from \<open>length\<close> on set to zero. This is the output of the template for a start
      index and a length inside the template's ranges; \<open>SelectSubArray_checked\<close> is the
      template with its range constraints.\<close>
  "SelectSubArray inp startIndex len maxSubArrayLen =
    (let shifter = VarShiftLeft inp startIndex maxSubArrayLen
     in map (\<lambda>i. if int i < len then shifter ! i else 0) [0..<maxSubArrayLen])"

text \<open>
  The function \<open>log2Ceil\<close> of the library: the number of times \<open>a - 1\<close> is halved
  until it is 0.
\<close>

fun halvings :: "nat \<Rightarrow> nat" where
  "halvings 0 = 0"
| "halvings (Suc n) = Suc (halvings (Suc n div 2))"

definition log2Ceil :: "nat \<Rightarrow> nat" where
  "log2Ceil a = halvings (a - 1)"

definition VarShiftLeft_range :: "nat \<Rightarrow> signal \<Rightarrow> bool" where
  \<comment> \<open>\<open>VarShiftLeft(maxArrayLen, _)\<close> opens with \<open>Num2Bits(log2Ceil(maxArrayLen))\<close> on
      \<open>shift\<close>; the rotation is built from these bits.\<close>
  "VarShiftLeft_range maxArrayLen shift = Num2Bits (log2Ceil maxArrayLen) shift"

text \<open>
  circomlib \<open>GreaterThan(n)\<close> on \<open>(a, b)\<close> is \<open>LessThan(n)\<close> on \<open>(b, a)\<close>, and
  \<open>LessThan(n)\<close> decomposes \<open>in[0] + 2^n - in[1]\<close> into \<open>n + 1\<close> bits and returns one
  minus the top bit.
\<close>

definition GreaterThan_in :: "nat \<Rightarrow> signal \<Rightarrow> signal \<Rightarrow> signal" where
  "GreaterThan_in n a b = fsub (fadd b (2 ^ n)) a"

definition GreaterThan_range :: "nat \<Rightarrow> signal \<Rightarrow> signal \<Rightarrow> bool" where
  "GreaterThan_range n a b = Num2Bits (n + 1) (GreaterThan_in n a b)"

definition GreaterThan :: "nat \<Rightarrow> signal \<Rightarrow> signal \<Rightarrow> signal" where
  "GreaterThan n a b = fsub 1 ((GreaterThan_in n a b div 2 ^ n) mod 2)"

definition SelectSubArray_checked ::
  "nat \<Rightarrow> nat \<Rightarrow> signal list \<Rightarrow> signal \<Rightarrow> signal \<Rightarrow> signal list option" where
  \<comment> \<open>The template \<open>SelectSubArray(maxArrayLen, maxSubArrayLen)\<close> of @zk-email/circuits
      with its constraints (its text is not under src/): the input is shifted by
      \<open>startIndex\<close> through \<open>VarShiftLeft\<close>, and entry \<open>i\<close> of the output is
      \<open>GreaterThan(log2Ceil(maxSubArrayLen))(length, i) * shifter.out[i]\<close>. \<open>None\<close>: no
      assignment of the template's signals satisfies its constraints.\<close>
  "SelectSubArray_checked maxArrayLen maxSubArrayLen inp startIndex len =
    (let n = log2Ceil maxSubArrayLen;
         shifter = VarShiftLeft inp startIndex maxSubArrayLen
     in if VarShiftLeft_range maxArrayLen startIndex
          \<and> list_all (\<lambda>i. GreaterThan_range n len (int i)) [0..<maxSubArrayLen]
        then Some (map (\<lambda>i. fmul (GreaterThan n len (int i)) (shifter ! i)) [0..<maxSubArrayLen])
        else None)"

text \<open>
  RecoverEmailCircuit.circom, line 251: the main component is
  \<open>MyCircuit(1024, 64, 121, 17, 31)\<close>.
\<close>

definition max_header_bytes :: nat where
  "max_header_bytes = 1024"

text \<open>
  RecoverEmailCircuit.circom, lines 48-62 (Subject), 147-158 (From) and 198-209 (Date):
  the same anchor constraints, instantiated with \<open>subject_start_idx\<close>,
  \<open>from_start_idx\<close> and \<open>date_start_idx\<close>. The result is whether the constraints
  can be satisfied.
\<close>

definition anchor_check :: "signal list \<Rightarrow> signal \<Rightarrow> bool" where
  "anchor_check emailHeader start_idx =
    (let anchor_len = 2;
         anchorWindow = SelectSubArray_checked max_header_bytes anchor_len
           emailHeader (fsub start_idx 2) (int anchor_len);
         isFirst = IsZero start_idx
     in case anchorWindow of
          None \<Rightarrow> False
        | Some anchor \<Rightarrow>
            fmul (fsub 1 isFirst) (fsub (anchor ! 0) 13) = 0
            \<and> fmul (fsub 1 isFirst) (fsub (anchor ! 1) 10) = 0)"

text \<open>
  RecoverEmailCircuit.circom, lines 160-171: the five bytes at \<open>from_start_idx\<close> are
  \<open>from:\<close>.
\<close>

definition fromPrefix_check :: "signal list \<Rightarrow> signal \<Rightarrow> bool" where
  "fromPrefix_check emailHeader from_start_idx =
    (let from_prefix_len = 5
     in case SelectSubArray_checked max_header_bytes from_prefix_len
               emailHeader from_start_idx (int from_prefix_len) of
          None \<Rightarrow> False
        | Some fromPrefix \<Rightarrow> fromPrefix = [102, 114, 111, 109, 58])"

text \<open>
  RecoverEmailCircuit.circom, lines 180-196: no CR or LF between \<open>from:\<close> and the
  address. The loop runs over the \<open>from_gap_max_len = 255\<close> entries of the window.
\<close>

definition fromNoNewline_check :: "signal list \<Rightarrow> signal \<Rightarrow> signal \<Rightarrow> bool" where
  "fromNoNewline_check emailHeader from_start_idx from_addr_idx =
    (let from_prefix_len = 5;
         from_gap_max_len = 255;
         from_gap_start = fadd from_start_idx from_prefix_len;
         from_gap_len = fsub from_addr_idx from_gap_start
     in case SelectSubArray_checked max_header_bytes from_gap_max_len
               emailHeader from_gap_start from_gap_len of
          None \<Rightarrow> False
        | Some fromGap \<Rightarrow>
            list_all (\<lambda>b. IsZero (fmul (fsub b 13) (fsub b 10)) = 0) fromGap)"

text \<open>
  The header entries are bytes: the external EmailVerifier component hashes them as such.
\<close>

definition is_bytes :: "signal list \<Rightarrow> bool" where
  "is_bytes xs = list_all (\<lambda>b. 0 \<le> b \<and> b < 256) xs"

section \<open>Layout check of the verifying-key artifact\<close>

text \<open>
  \<open>checkGroth16ZkeyLayout\<close> of scripts/snarkjsUtils.ts (src/unnamed/part_001, lines
  48-135). The model takes the bytes of the file; opening and reading the file succeed.
  File offsets and sizes are BigInt values, here \<open>nat\<close>.
\<close>

type_synonym byte = "8 word"

text \<open>Node's \<open>Buffer.readUInt32LE\<close> and \<open>Buffer.readBigUInt64LE\<close>.\<close>

fun readUIntLE :: "byte list \<Rightarrow> nat" where
  "readUIntLE [] = 0"
| "readUIntLE (b # bs) = unat b + 256 * readUIntLE bs"

definition readUInt32LE :: "byte list \<Rightarrow> nat \<Rightarrow> nat" where
  "readUInt32LE buf offset = readUIntLE (take 4 (drop offset buf))"

definition readBigUInt64LE :: "byte list \<Rightarrow> nat \<Rightarrow> nat" where
  "readBigUInt64LE buf offset = readUIntLE (take 8 (drop offset buf))"

text \<open>
  The result \<open>{ ok: true } | { ok: false, reason }\<close>. Each reason is one template
  string of the source; the constructor carries the values the template interpolates:
  \<open>file too small (n bytes)\<close>, \<open>bad magic (...)\<close>, \<open>unsupported version (v)\<close>,
  \<open>unexpected nSections (n)\<close>, \<open>unexpected EOF reading section header #i at offset pos\<close>,
  \<open>duplicate section t\<close>, \<open>section t exceeds file size (ends at pos, file is size)\<close>,
  \<open>trailing bytes after last section (last ends at pos, file is size)\<close>,
  \<open>missing section s\<close>.
\<close>

datatype reason =
    FileTooSmall nat
  | BadMagic "byte list"
  | UnsupportedVersion nat
  | UnexpectedNSections nat
  | UnexpectedEOF nat nat
  | DuplicateSection nat
  | SectionExceedsFile nat nat nat
  | TrailingBytes nat nat
  | MissingSection nat

datatype ZkeyCheckResult = Ok | NotOk reason

definition REQUIRED_SECTIONS :: "nat list" where
  "REQUIRED_SECTIONS = [1, 2, 3, 4, 5, 6, 7, 8, 9, 10]"

text \<open>
  The bytes of \<open>"zkey"\<close>: the first four bytes decode (UTF-8) to that string exactly
  when they are these.
\<close>

definition zkey_magic :: "byte list" where
  "zkey_magic = [122, 107, 101, 121]"

text \<open>
  The loop \<open>for (let i = 0; i < nSections; i++)\<close>; the first numeric argument counts
  the iterations that remain.
\<close>

fun read_sections ::
  "byte list \<Rightarrow> nat \<Rightarrow> nat \<Rightarrow> nat set \<Rightarrow> nat \<Rightarrow> reason + (nat set \<times> nat)" where
  "read_sections file 0 i seen pos = Inr (seen, pos)"
| "read_sections file (Suc remaining) i seen pos =
    (if pos + 12 > length file then Inl (UnexpectedEOF (i + 1) pos)
     else
       let sectionHeader = take 12 (drop pos file);
           sectionType = readUInt32LE sectionHeader 0;
           sectionSize = readBigUInt64LE sectionHeader 4
       in if sectionType \<in> seen then Inl (DuplicateSection sectionType)
          else
            let pos' = pos + (12 + sectionSize)
            in if pos' > length file
               then Inl (SectionExceedsFile sectionType pos' (length file))
               else read_sections file remaining (i + 1) (insert sectionType seen) pos')"

definition checkGroth16ZkeyLayout :: "byte list \<Rightarrow> ZkeyCheckResult" where
  "checkGroth16ZkeyLayout file =
    (let fileSize = length file
     in if fileSize < 12 then NotOk (FileTooSmall fileSize)
        else
          let fileHeader = take 12 file;
              magic = take 4 fileHeader
          in if magic \<noteq> zkey_magic then NotOk (BadMagic magic)
             else
               let version = readUInt32LE fileHeader 4
               in if version \<noteq> 1 then NotOk (UnsupportedVersion version)
                  else
                    let nSections = readUInt32LE fileHeader 8
                    in if nSections \<noteq> 10 then NotOk (UnexpectedNSections nSections)
                       else
                         (case read_sections file nSections 0 {} 12 of
                            Inl r \<Rightarrow> NotOk r
                          | Inr (seen, pos) \<Rightarrow>
                              if pos \<noteq> fileSize then NotOk (TrailingBytes pos fileSize)
                              else
                                (case find (\<lambda>section. section \<notin> seen) REQUIRED_SECTIONS of
                                   Some section \<Rightarrow> NotOk (MissingSection section)
                                 | None \<Rightarrow> Ok)))"

text \<open>
  The layout in the words of the spec: magic tag, version 1, section count 10, then
  exactly ten sections \<open>{type: uint32, size: uint64, payload}\<close> that fill the rest of
  the file, no type twice, the types 1 to 10 all present.
\<close>

fun le_bytes :: "nat \<Rightarrow> nat \<Rightarrow> byte list" where
  "le_bytes 0 v = []"
| "le_bytes (Suc n) v = of_nat (v mod 256) # le_bytes n (v div 256)"

definition section_bytes :: "nat \<times> byte list \<Rightarrow> byte list" where
  "section_bytes s = le_bytes 4 (fst s) @ le_bytes 8 (length (snd s)) @ snd s"

definition section_fits :: "nat \<times> byte list \<Rightarrow> bool" where
  "section_fits s = (fst s < 2 ^ 32 \<and> length (snd s) < 2 ^ 64)"

definition zkey_layout_ok :: "byte list \<Rightarrow> bool" where
  "zkey_layout_ok file =
    (\<exists>secs. file = zkey_magic @ le_bytes 4 1 @ le_bytes 4 10 @ concat (map section_bytes secs)
        \<and> length secs = 10
        \<and> list_all section_fits secs
        \<and> distinct (map fst secs)
        \<and> set (map fst secs) = {1..10})"

section \<open>Sender-binding hash\<close>

text \<open>
  RecoverEmailCircuit.circom (privacy-preserving variant), lines 459-518: the body of
  the two lowercasing loops, for one entry of the selected window.
\<close>

definition lower_case :: "signal \<Rightarrow> signal" where
  "lower_case b =
    (let lt65 = LessThan 8 b 65;
         lt91 = LessThan 8 b 91;
         isGe65 = fsub 1 lt65;
         isUpper = fmul isGe65 lt91
     in fadd b (fmul 32 isUpper))"

text \<open>
  Lines 520-567: \<open>fromVec\<close>, the delimiter and the account bytes, the last two moved
  to their places by \<open>VarShiftLeft\<close>, added entry by entry.
\<close>

definition preimage :: "signal list \<Rightarrow> signal list \<Rightarrow> signal \<Rightarrow> signal list" where
  "preimage from_email_lower account_id_lower from_addr_len =
    (let fromVec = map (\<lambda>i. if i < 255 then from_email_lower ! i else 0) [0..<512];
         accountVecBase = map (\<lambda>i. if i < 255 then account_id_lower ! i else 0) [0..<512];
         delimBase = map (\<lambda>i. if i = 0 then 124 else 0) [0..<512];
         accountShiftLeft = fsub (fsub 512 from_addr_len) 1;
         accountShifter = VarShiftLeft accountVecBase accountShiftLeft 512;
         fromLenIsZero = IsZero from_addr_len;
         delimShiftLeft = fmul (fsub 512 from_addr_len) (fsub 1 fromLenIsZero);
         delimShifter = VarShiftLeft delimBase delimShiftLeft 512
     in map (\<lambda>i. fadd (fadd (fromVec ! i) (delimShifter ! i)) (accountShifter ! i)) [0..<512])"

text \<open>
  Lines 639-702: the byte 0x80 at index \<open>preimage_len\<close>, the two low bytes of the
  bit length at the end of the last block. \<open>lenLo\<close> and \<open>lenHi\<close> are
  \<open>Bits2Num(8)\<close> of the low and the high eight bits of \<open>Num2Bits(16)(len_bits)\<close>.
\<close>

definition from_address_hash_preimage_padded :: "signal list \<Rightarrow> signal \<Rightarrow> signal list" where
  "from_address_hash_preimage_padded preimg plen =
    (let preimage_ext = map (\<lambda>i. if i < 512 then preimg ! i else 0) [0..<576];
         oneBase = map (\<lambda>i. if i = 0 then 128 else 0) [0..<576];
         shiftOne = fsub 576 plen;
         oneShifter = VarShiftLeft oneBase shiftOne 576;
         len_bits = fmul plen 8;
         lenLo = len_bits mod 256;
         lenHi = (len_bits div 256) mod 256;
         lenBase = map (\<lambda>i. if i = 6 then lenHi else if i = 7 then lenLo else 0) [0..<576];
         shiftLen = fsub (fadd 576 8) (preimage_padded_len plen);
         lenShifter = VarShiftLeft lenBase shiftLen 576
     in map (\<lambda>i. fadd (fadd (preimage_ext ! i) (oneShifter ! i)) (lenShifter ! i)) [0..<576])"

definition Sha256Bytes :: "(signal list \<Rightarrow> signal list) \<Rightarrow> signal list \<Rightarrow> signal \<Rightarrow> signal list" where
  \<comment> \<open>Modelled from the spec: the templates \<open>Sha256Bytes\<close> and \<open>PackBits\<close> of
      @zk-email/circuits are not under src/. \<open>Sha256Bytes\<close> hashes the first
      \<open>paddedInLength\<close> bytes of an input that is already padded: the parameter
      \<open>sha256_blocks\<close> stands for the SHA-256 compression chain from the initial hash
      value over the 64-byte blocks to the 32 digest bytes (big-endian).\<close>
  "Sha256Bytes sha256_blocks paddedIn paddedInLength =
    sha256_blocks (take (nat paddedInLength) paddedIn)"

text \<open>
  Lines 452-712 together: \<open>None\<close> when a range check of the hashing part fails,
  otherwise the digest bytes exposed as \<open>from_address_hash\<close>.
\<close>

definition from_address_hash ::
  "(signal list \<Rightarrow> signal list) \<Rightarrow> signal list \<Rightarrow> signal \<Rightarrow> signal \<Rightarrow> signal \<Rightarrow> signal
    \<Rightarrow> signal list option" where
  "from_address_hash sha256_blocks emailHeader from_addr_idx from_addr_len
      subject_account_id_idx subject_account_id_len =
    (let fromEmailBytes = SelectSubArray emailHeader from_addr_idx from_addr_len 255;
         accountIdBytes =
           SelectSubArray emailHeader subject_account_id_idx subject_account_id_len 255;
         from_email_lower = map lower_case fromEmailBytes;
         account_id_lower = map lower_case accountIdBytes;
         plen = preimage_len from_addr_len subject_account_id_len
     in if length_range_checks from_addr_len subject_account_id_len
          \<and> list_all (Num2Bits 8) fromEmailBytes
          \<and> list_all (Num2Bits 8) accountIdBytes
          \<and> isBlock_sum_ok plen
          \<and> Num2Bits 16 (fmul plen 8)
        then Some (Sha256Bytes sha256_blocks
          (from_address_hash_preimage_padded
            (preimage from_email_lower account_id_lower from_addr_len) plen)
          (preimage_padded_len plen))
        else None)"

text \<open>
  The hash in the words of the spec: ASCII \<open>A-Z\<close> folded to lowercase, the preimage
  \<open>lower(from) || 0x7C || lower(accountId)\<close>, the standard padding (0x80, zero
  bytes, 8-byte big-endian bit length, up to the next multiple of 64), the compression
  chain over the padded message.
\<close>

definition ascii_lower :: "int \<Rightarrow> int" where
  "ascii_lower b = (if 65 \<le> b \<and> b \<le> 90 then b + 32 else b)"

definition be64 :: "nat \<Rightarrow> int list" where
  "be64 v = map (\<lambda>j. int ((v div 256 ^ (7 - j)) mod 256)) [0..<8]"

definition sha256_pad :: "int list \<Rightarrow> int list" where
  "sha256_pad m =
    m @ [128] @ replicate ((64 - (length m + 9) mod 64) mod 64) 0 @ be64 (8 * length m)"

definition sha256_digest :: "(int list \<Rightarrow> int list) \<Rightarrow> int list \<Rightarrow> int list" where
  "sha256_digest sha256_blocks m = sha256_blocks (sha256_pad m)"

definition binding_preimage :: "int list \<Rightarrow> int list \<Rightarrow> int list" where
  "binding_preimage fromEmail accountId =
    map ascii_lower fromEmail @ [124] @ map ascii_lower accountId"

section \<open>Packing and the proof-binding verifier\<close>

text \<open>
  Modelled from the spec: SubstringPacker (section 4.3). The packing template
  \<open>PackByteSubArray\<close> of @zk-email/circuits and the packing function of the verifier
  contract are not under src/. Element \<open>i\<close> is the big-endian integer of the bytes
  \<open>[i * 31, min ((i + 1) * 31) length)\<close> of the substring, zero-extended on the right to
  31 bytes; a length above \<open>maxLen = 255\<close> is \<open>LengthOutOfRange\<close>. \<open>unpack\<close> is
  the inverse the spec names: the elements written back as 31 big-endian bytes each,
  cut at \<open>length\<close>.
\<close>

datatype pack_error = LengthOutOfRange

definition be_int :: "byte list \<Rightarrow> nat" where
  "be_int bs = foldl (\<lambda>acc b. acc * 256 + unat b) 0 bs"

definition pad_right :: "nat \<Rightarrow> byte list \<Rightarrow> byte list" where
  "pad_right n bs = bs @ replicate (n - length bs) 0"

definition pack_element :: "byte list \<Rightarrow> nat \<Rightarrow> nat" where
  "pack_element s i = be_int (pad_right 31 (take 31 (drop (i * 31) s)))"

definition pack :: "byte list \<Rightarrow> nat \<Rightarrow> nat \<Rightarrow> pack_error + nat list" where
  "pack buffer start len =
    (if len > 255 then Inl LengthOutOfRange
     else Inr (map (pack_element (take len (drop start buffer))) [0..<9]))"

definition be_bytes :: "nat \<Rightarrow> nat \<Rightarrow> byte list" where
  "be_bytes n v = map (\<lambda>j. of_nat (v div 256 ^ (n - 1 - j))) [0..<n]"

definition unpack :: "nat list \<Rightarrow> nat \<Rightarrow> byte list" where
  "unpack elems len = take len (concat (map (be_bytes 31) elems))"











text \<open>
  A stand-in for the compression chain in the examples: 32 entries, the first an
  injective code of the message (its digits \<open>b + 1\<close> in base 257).
\<close>

definition digest_code :: "int list \<Rightarrow> int" where
  "digest_code m = foldr (\<lambda>b acc. b + 1 + 257 * acc) m 0"


section \<open>Locating the From address in the header\<close>

text \<open>
  scripts/generateWitness.ts, lines 74-81 and 131-158. The header bytes are decoded to a
  JavaScript string (\<open>headerBuf.toString("utf8")\<close>: a list of UTF-16 code units), the
  From line and the address are found in that string with regular expressions and
  \<open>String.indexOf\<close>, and the length of the address is taken with
  \<open>Buffer.from(fromEmailStr, "utf8").length\<close>.
\<close>

type_synonym code_unit = nat

text \<open>
  The UTF-8 decoder of \<open>Buffer.toString\<close>: a malformed sequence gives U+FFFD, a code
  point above U+FFFF a surrogate pair.
\<close>

definition emit_code_point :: "nat \<Rightarrow> code_unit list" where
  "emit_code_point cp =
    (if cp < 65536 then [cp]
     else [55296 + (cp - 65536) div 1024, 56320 + (cp - 65536) mod 1024])"

function utf8_decode :: "nat \<Rightarrow> nat \<Rightarrow> nat \<Rightarrow> nat \<Rightarrow> nat \<Rightarrow> byte list \<Rightarrow> code_unit list" where
  "utf8_decode cp seen needed lower upper [] = (if needed \<noteq> 0 then [65533] else [])"
| "utf8_decode cp seen needed lower upper (b # bs) =
    (let x = unat b in
     if needed = 0 then
       (if x < 128 then x # utf8_decode 0 0 0 128 191 bs
        else if 194 \<le> x \<and> x \<le> 223 then utf8_decode (x mod 32) 0 1 128 191 bs
        else if 224 \<le> x \<and> x \<le> 239 then
          utf8_decode (x mod 16) 0 2 (if x = 224 then 160 else 128) (if x = 237 then 159 else 191) bs
        else if 240 \<le> x \<and> x \<le> 244 then
          utf8_decode (x mod 8) 0 3 (if x = 240 then 144 else 128) (if x = 244 then 143 else 191) bs
        else 65533 # utf8_decode 0 0 0 128 191 bs)
     else if x < lower \<or> upper < x then 65533 # utf8_decode 0 0 0 128 191 (b # bs)
     else
       (let cp' = cp * 64 + x mod 64 in
        if seen + 1 \<noteq> needed then utf8_decode cp' (seen + 1) needed 128 191 bs
        else emit_code_point cp' @ utf8_decode 0 0 0 128 191 bs))"
  by pat_completeness auto
termination
  by (relation "measure (\<lambda>(cp, seen, needed, lower, upper, bs).
      2 * length bs + (if needed = 0 then 0 else 1))") auto

definition toString_utf8 :: "byte list \<Rightarrow> code_unit list" where
  "toString_utf8 buf = utf8_decode 0 0 0 128 191 buf"

text \<open>\<open>Buffer.from(s, "utf8").length\<close>: the number of bytes of the UTF-8 encoding.\<close>

fun utf8_length :: "code_unit list \<Rightarrow> nat" where
  "utf8_length [] = 0"
| "utf8_length [c] = (if c < 128 then 1 else if c < 2048 then 2 else 3)"
| "utf8_length (c # d # cs) =
    (if c < 128 then 1 + utf8_length (d # cs)
     else if c < 2048 then 2 + utf8_length (d # cs)
     else if 55296 \<le> c \<and> c < 56320 \<and> 56320 \<le> d \<and> d < 57344 then 4 + utf8_length cs
     else 3 + utf8_length (d # cs))"

text \<open>
  The character classes of the regular expressions: line terminators (for \<open>^\<close> and
  \<open>$\<close> under the flag \<open>m\<close>), \<open>\s\<close>, \<open>[^\r\n]\<close>, and a letter of the pattern
  under the flag \<open>i\<close>.
\<close>

definition is_line_terminator :: "code_unit \<Rightarrow> bool" where
  "is_line_terminator c = (c = 10 \<or> c = 13 \<or> c = 8232 \<or> c = 8233)"

definition is_space :: "code_unit \<Rightarrow> bool" where
  "is_space c =
    (c = 9 \<or> c = 10 \<or> c = 11 \<or> c = 12 \<or> c = 13 \<or> c = 32 \<or> c = 160 \<or> c = 5760
      \<or> (8192 \<le> c \<and> c \<le> 8202) \<or> c = 8232 \<or> c = 8233 \<or> c = 8239 \<or> c = 8287
      \<or> c = 12288 \<or> c = 65279)"

definition not_crlf :: "code_unit \<Rightarrow> bool" where
  "not_crlf c = (c \<noteq> 13 \<and> c \<noteq> 10)"

definition ci_char :: "code_unit \<Rightarrow> code_unit \<Rightarrow> bool" where
  "ci_char p c = (c = p \<or> (97 \<le> p \<and> p \<le> 122 \<and> c + 32 = p))"

definition ci_prefix :: "code_unit list \<Rightarrow> code_unit list \<Rightarrow> bool" where
  "ci_prefix pat s = (length pat \<le> length s \<and> list_all2 ci_char pat (take (length pat) s))"

text \<open>
  \<open>/^from:[^\r\n]*$/im\<close> tried at position \<open>i\<close>: the greedy run stops at CR, LF or
  the end of the string, where \<open>$\<close> holds. \<open>exec\<close> returns the first position that
  matches, with the matched line.
\<close>

definition fromLineRegex_at :: "code_unit list \<Rightarrow> nat \<Rightarrow> code_unit list option" where
  "fromLineRegex_at s i =
    (if (i = 0 \<or> is_line_terminator (s ! (i - 1))) \<and> ci_prefix [102, 114, 111, 109, 58] (drop i s)
     then Some (take (5 + length (takeWhile not_crlf (drop (i + 5) s))) (drop i s))
     else None)"

definition fromLineRegex_exec :: "code_unit list \<Rightarrow> (nat \<times> code_unit list) option" where
  "fromLineRegex_exec s =
    (case find (\<lambda>i. fromLineRegex_at s i \<noteq> None) [0..<Suc (length s)] of
       None \<Rightarrow> None
     | Some i \<Rightarrow> map_option (\<lambda>line. (i, line)) (fromLineRegex_at s i))"

text \<open>
  \<open>/<([^>\s]+)>/\<close> on the From line, and the fallback \<open>/^from:\s*([^\s\r\n]+)/i\<close>;
  each returns its capture.
\<close>

definition angle_char :: "code_unit \<Rightarrow> bool" where
  "angle_char c = (c \<noteq> 62 \<and> \<not> is_space c)"

definition angleRegex_at :: "code_unit list \<Rightarrow> nat \<Rightarrow> code_unit list option" where
  "angleRegex_at s p =
    (let run = takeWhile angle_char (drop (p + 1) s)
     in if p < length s \<and> s ! p = 60 \<and> run \<noteq> []
           \<and> p + 1 + length run < length s \<and> s ! (p + 1 + length run) = 62
        then Some run else None)"

definition angleRegex_exec :: "code_unit list \<Rightarrow> code_unit list option" where
  "angleRegex_exec s =
    (case find (\<lambda>p. angleRegex_at s p \<noteq> None) [0..<Suc (length s)] of
       None \<Rightarrow> None
     | Some p \<Rightarrow> angleRegex_at s p)"

definition bareRegex_exec :: "code_unit list \<Rightarrow> code_unit list option" where
  "bareRegex_exec s =
    (if ci_prefix [102, 114, 111, 109, 58] s
     then
       (let rest = dropWhile is_space (drop 5 s);
            run = takeWhile (\<lambda>c. \<not> is_space c) rest
        in if run \<noteq> [] then Some run else None)
     else None)"

text \<open>\<open>String.prototype.indexOf\<close>: the first position of the needle.\<close>

definition indexOf :: "code_unit list \<Rightarrow> code_unit list \<Rightarrow> nat option" where
  "indexOf hay needle =
    find (\<lambda>p. take (length needle) (drop p hay) = needle) [0..<Suc (length hay)]"

text \<open>
  Lines 131-158: the three From entries of the circuit input (\<open>from_start_idx\<close>,
  \<open>from_addr_idx\<close>, \<open>from_addr_len\<close>), or the error thrown.
\<close>

datatype locate_error = FromLineNotFound | SenderNotFound | SenderOffsetNotFound

record from_location =
  out_from_start_idx :: nat
  out_from_addr_idx :: nat
  out_from_addr_len :: nat

definition locate_from :: "byte list \<Rightarrow> locate_error + from_location" where
  "locate_from headerBuf =
    (let headerStr = toString_utf8 headerBuf
     in case fromLineRegex_exec headerStr of
          None \<Rightarrow> Inl FromLineNotFound
        | Some (index, fromLine) \<Rightarrow>
            (case (case angleRegex_exec fromLine of
                     Some a \<Rightarrow> Some a
                   | None \<Rightarrow> bareRegex_exec fromLine) of
               None \<Rightarrow> Inl SenderNotFound
             | Some fromEmailStr \<Rightarrow>
                 (case indexOf fromLine fromEmailStr of
                    None \<Rightarrow> Inl SenderOffsetNotFound
                  | Some fromEmailOffset \<Rightarrow>
                      Inr \<lparr>out_from_start_idx = index,
                           out_from_addr_idx = index + fromEmailOffset,
                           out_from_addr_len = utf8_length fromEmailStr\<rparr>)))"

section \<open>Theorems\<close>

lemma numBlocks_cases:
  "numBlocks L =
    (if L \<le> 55 then 1 else if L \<le> 119 then 2 else if L \<le> 183 then 3
     else if L \<le> 247 then 4 else if L \<le> 311 then 5 else if L \<le> 375 then 6
     else if L \<le> 439 then 7 else if L \<le> 503 then 8 else 9)"
  by (simp add: numBlocks_def isBlock_def LessEqThan_def fadd_def fsub_def fmul_def p_field_def)

lemma isBlock_sum_ok_always: "isBlock_sum_ok L"
  by (simp add: isBlock_sum_ok_def isBlock_def LessEqThan_def fadd_def fsub_def p_field_def)

lemma blocks_direct_div: "blocks_direct L = (L + 72) div 64"
proof -
  have "\<lceil>real_of_int (L + 9) / real_of_int 64\<rceil> = - ((- (L + 9)) div 64)"
    by (rule ceiling_divide_eq_div)
  then show ?thesis
    unfolding blocks_direct_def by simp
qed

lemma numBlocks_div: "0 \<le> L \<Longrightarrow> L \<le> 511 \<Longrightarrow> numBlocks L = (L + 72) div 64"
  unfolding numBlocks_cases by (simp split: if_splits; linarith)

lemma padded_bound:
  "0 \<le> L \<Longrightarrow> L \<le> 511 \<Longrightarrow> 0 \<le> (L + 72) div 64 * 64 \<and> (L + 72) div 64 * 64 < p_field"
  unfolding p_field_def by linarith

lemma preimage_padded_len_div:
  assumes "0 \<le> L" and "L \<le> 511"
  shows "preimage_padded_len L = (L + 72) div 64 * 64"
  using padded_bound [OF assms]
  by (simp add: preimage_padded_len_def fmul_def numBlocks_div [OF assms])

lemma least_multiple:
  assumes "64 dvd (m::int)" and "L + 9 \<le> m"
  shows "(L + 72) div 64 * 64 \<le> m"
proof -
  from assms(1) obtain k where k: "m = 64 * k" by (auto simp: dvd_def)
  have "(L + 72) div 64 \<le> (64 * k + 63) div 64"
    by (rule zdiv_mono1) (use assms(2) k in auto)
  also have "\<dots> = k" by linarith
  finally show ?thesis using k by simp
qed

text \<open>
  C6. For every preimage length \<open>L\<close> with \<open>0 \<le> L \<le> 511\<close> the block count
  selected by the ladder of eight threshold comparisons equals \<open>ceil((L + 9) / 64)\<close>,
  and the padded length \<open>numBlocks * 64\<close> is the smallest multiple of 64 that is at
  least \<open>L + 9\<close>.
\<close>

theorem numBlocks_is_ceiling:
  assumes "0 \<le> L" and "L \<le> 511"
  shows "numBlocks L = blocks_direct L
    \<and> preimage_padded_len L = blocks_direct L * 64
    \<and> 64 dvd preimage_padded_len L
    \<and> L + 9 \<le> preimage_padded_len L
    \<and> (\<forall>m. 64 dvd m \<and> L + 9 \<le> m \<longrightarrow> preimage_padded_len L \<le> m)"
proof -
  have ge: "L + 9 \<le> (L + 72) div 64 * 64"
    by linarith
  show ?thesis
    using ge least_multiple [of _ L]
    by (simp add: numBlocks_div [OF assms] preimage_padded_len_div [OF assms] blocks_direct_div)
qed

theorem numBlocks_is_ceiling_witness:
  "numBlocks 56 = 2 \<and> blocks_direct 56 = 2 \<and> preimage_padded_len 56 = 128
    \<and> numBlocks 511 = 9 \<and> preimage_padded_len 511 = 576"
  using numBlocks_is_ceiling [of 56] numBlocks_is_ceiling [of 511]
  by (simp add: blocks_direct_div)

text \<open>
  C10. Every witness that passes the length range checks of the privacy-preserving
  variant has \<open>from_addr_len < 256\<close> and \<open>subject_account_id_len < 256\<close>, and
  its \<open>preimage_len = from_addr_len + 1 + subject_account_id_len\<close> lies in
  \<open>1..511\<close>: the delimiter byte is always counted, so the preimage is never empty.
\<close>

theorem preimage_len_range:
  assumes "length_range_checks from_addr_len subject_account_id_len"
  shows "from_addr_len < 256 \<and> subject_account_id_len < 256
    \<and> preimage_len from_addr_len subject_account_id_len
        = from_addr_len + 1 + subject_account_id_len
    \<and> 1 \<le> preimage_len from_addr_len subject_account_id_len
    \<and> preimage_len from_addr_len subject_account_id_len \<le> 511"
proof -
  from assms have r: "0 \<le> from_addr_len" "from_addr_len < 256"
      "0 \<le> subject_account_id_len" "subject_account_id_len < 256"
    by (simp_all add: length_range_checks_def Num2Bits_def)
  then have "from_addr_len + 1 + subject_account_id_len < p_field"
    unfolding p_field_def by linarith
  with r have "preimage_len from_addr_len subject_account_id_len
      = from_addr_len + 1 + subject_account_id_len"
    by (simp add: preimage_len_def fadd_def)
  with r show ?thesis by simp
qed

theorem preimage_len_range_witness:
  "length_range_checks 0 0 \<and> preimage_len 0 0 = 1
    \<and> length_range_checks 255 255 \<and> preimage_len 255 255 = 511"
  using preimage_len_range [of 0 0] preimage_len_range [of 255 255]
  by (simp add: length_range_checks_def Num2Bits_def preimage_len_def fadd_def p_field_def)

lemma p_field_pos: "256 < p_field" "0 < p_field"
  by (simp_all add: p_field_def)

lemma fsub_small: "b \<le> a \<Longrightarrow> a - b < p_field \<Longrightarrow> fsub a b = a - b"
  using mod_pos_pos_trivial [of "a - b" p_field] by (simp add: fsub_def)

lemma list2_nth: "length xs = 2 \<Longrightarrow> xs = [xs ! 0, xs ! 1]"
proof -
  assume "length xs = 2"
  then obtain a b where "xs = [a, b]"
    by (cases xs; cases "tl xs") auto
  then show ?thesis by simp
qed

lemma fadd_small: "0 \<le> a + b \<Longrightarrow> a + b < p_field \<Longrightarrow> fadd a b = a + b"
  using mod_pos_pos_trivial [of "a + b" p_field] by (simp add: fadd_def)

lemma fsub_eq_0_iff:
  assumes "0 \<le> a" "a < p_field" "0 \<le> b" "b < p_field"
  shows "fsub a b = 0 \<longleftrightarrow> a = b"
proof
  assume "fsub a b = 0"
  then have d: "p_field dvd a - b" by (simp add: fsub_def mod_eq_0_iff_dvd)
  have "\<bar>a - b\<bar> < p_field" using assms by linarith
  with d have "a - b = 0" using zdvd_not_zless [of "\<bar>a - b\<bar>" p_field]
    by (cases "a - b = 0") auto
  then show "a = b" by simp
next
  assume "a = b" then show "fsub a b = 0" by (simp add: fsub_def)
qed

lemma is_bytes_nth: "is_bytes xs \<Longrightarrow> i < length xs \<Longrightarrow> 0 \<le> xs ! i \<and> xs ! i < 256"
  by (simp add: is_bytes_def list_all_length)

lemma VarShiftLeft_nth:
  "i < n \<Longrightarrow> n \<le> length inp \<Longrightarrow> 0 \<le> s \<Longrightarrow>
    VarShiftLeft inp s n ! i = inp ! ((nat s + i) mod length inp)"
  by (simp add: VarShiftLeft_def nth_rotate)

lemma SelectSubArray_length [simp]: "length (SelectSubArray inp s len n) = n"
  by (simp add: SelectSubArray_def)

lemma SelectSubArray_nth:
  "i < n \<Longrightarrow> n \<le> length inp \<Longrightarrow> 0 \<le> s \<Longrightarrow>
    SelectSubArray inp s len n ! i =
      (if int i < len then inp ! ((nat s + i) mod length inp) else 0)"
  by (simp add: SelectSubArray_def VarShiftLeft_nth)

lemma SelectSubArray_byte:
  assumes "is_bytes inp" "i < n" "n \<le> length inp" "0 \<le> s"
  shows "0 \<le> SelectSubArray inp s len n ! i \<and> SelectSubArray inp s len n ! i < 256"
proof -
  have "0 < length inp" using assms by linarith
  then have "(nat s + i) mod length inp < length inp" by simp
  then show ?thesis
    using is_bytes_nth [OF assms(1)] assms by (simp add: SelectSubArray_nth)
qed

lemma fsub_nonneg: "0 \<le> fsub a b"
  by (simp add: fsub_def p_field_def)

lemma fadd_nonneg: "0 \<le> fadd a b"
  by (simp add: fadd_def p_field_def)

lemma fmul_fsub_fsub: "fmul (fsub a b) (fsub c d) = ((a - b) * (c - d)) mod p_field"
  by (simp add: fmul_def fsub_def mod_mult_eq)

lemma small_mod_nonzero:
  assumes "0 < x" "x < p_field"
  shows "x mod p_field \<noteq> 0"
  using assms by simp

lemma gap_byte_ok:
  assumes "0 \<le> b" "b < 256"
  shows "IsZero (fmul (fsub b 13) (fsub b 10)) = 0 \<longleftrightarrow> b \<noteq> 13 \<and> b \<noteq> 10"
proof -
  consider "b < 10" | "b = 10" | "b = 11" | "b = 12" | "b = 13" | "13 < b"
    by linarith
  then show ?thesis
  proof cases
    case 1
    have "0 < (13 - b) * (10 - b)" using 1 by (intro mult_pos_pos) simp_all
    moreover have "(13 - b) * (10 - b) \<le> 13 * 10"
      using 1 assms by (intro mult_mono) simp_all
    moreover have "(b - 13) * (b - 10) = (13 - b) * (10 - b)" by (simp add: algebra_simps)
    ultimately have "0 < (b - 13) * (b - 10)" "(b - 13) * (b - 10) < p_field"
      by (simp_all add: p_field_def)
    then have "((b - 13) * (b - 10)) mod p_field \<noteq> 0" by (rule small_mod_nonzero)
    with 1 show ?thesis by (simp add: IsZero_def fmul_fsub_fsub)
  next
    case 6
    have "0 < (b - 13) * (b - 10)" using 6 by (intro mult_pos_pos) simp_all
    moreover have "(b - 13) * (b - 10) \<le> 256 * 256"
      using 6 assms by (intro mult_mono) simp_all
    ultimately have "0 < (b - 13) * (b - 10)" "(b - 13) * (b - 10) < p_field"
      by (simp_all add: p_field_def)
    then have "((b - 13) * (b - 10)) mod p_field \<noteq> 0" by (rule small_mod_nonzero)
    with 6 show ?thesis by (simp add: IsZero_def fmul_fsub_fsub)
  qed (simp_all add: IsZero_def fmul_fsub_fsub p_field_def)
qed

lemma halvings_numeral: "halvings (numeral k) = Suc (halvings (numeral k div 2))"
proof -
  obtain m where m: "numeral k = Suc m"
    by (metis Suc_pred' zero_less_numeral)
  show ?thesis unfolding m by simp
qed

lemma halvings_1: "halvings 1 = 1"
  using halvings.simps(2) [of 0] by simp

lemma log2Ceil_values:
  "log2Ceil 1024 = 10" "log2Ceil 255 = 8" "log2Ceil 5 = 3" "log2Ceil 2 = 1"
  by (simp_all add: log2Ceil_def halvings_numeral halvings_1)

lemma GreaterThan_in_small:
  assumes "0 \<le> b" "0 \<le> a" "a \<le> b + 2 ^ n" "b + 2 ^ n < p_field"
  shows "GreaterThan_in n a b = b + 2 ^ n - a"
proof -
  have "fadd b (2 ^ n) = b + 2 ^ n"
    using assms by (intro fadd_small) simp_all
  moreover have "fsub (b + 2 ^ n) a = b + 2 ^ n - a"
    using assms by (intro fsub_small) simp_all
  ultimately show ?thesis by (simp add: GreaterThan_in_def)
qed

lemma GreaterThan_small:
  assumes "0 \<le> b" "b < 2 ^ n" "0 \<le> a" "a \<le> 2 ^ n" "2 * 2 ^ n < p_field"
  shows "GreaterThan_range n a b" "GreaterThan n a b = (if b < a then 1 else 0)"
proof -
  have g: "GreaterThan_in n a b = b + 2 ^ n - a"
    using assms by (intro GreaterThan_in_small) simp_all
  show "GreaterThan_range n a b"
    using assms by (simp add: GreaterThan_range_def Num2Bits_def g)
  show "GreaterThan n a b = (if b < a then 1 else 0)"
  proof (cases "b < a")
    case True
    then have "0 \<le> b + 2 ^ n - a" "b + 2 ^ n - a < 2 ^ n" using assms by simp_all
    then have "(b + 2 ^ n - a) div 2 ^ n = 0" by (simp add: div_pos_pos_trivial)
    then show ?thesis using True by (simp add: GreaterThan_def g fsub_def p_field_def)
  next
    case False
    then have "b + 2 ^ n - a = (b - a) + 1 * 2 ^ n" "0 \<le> b - a" "b - a < 2 ^ n"
      using assms by simp_all
    then have "(b + 2 ^ n - a) div 2 ^ n = 1"
      by (metis add.commute add_cancel_right_left div_mult_self2 div_pos_pos_trivial
          mult.commute power_not_zero zero_neq_numeral)
    then show ?thesis using False by (simp add: GreaterThan_def g fsub_def)
  qed
qed

lemma fmul_1: "0 \<le> x \<Longrightarrow> x < p_field \<Longrightarrow> fmul 1 x = x"
  by (simp add: fmul_def)

lemma fmul_0: "fmul 0 x = 0"
  by (simp add: fmul_def)

lemma SelectSubArray_checked_in_range:
  assumes b: "is_bytes inp" and n: "n \<le> length inp" and k: "log2Ceil n = k"
    and nk: "int n \<le> 2 ^ k" and kp: "2 * 2 ^ k < p_field"
    and s: "0 \<le> s" "s < 2 ^ log2Ceil m"
    and l: "0 \<le> len" "len \<le> 2 ^ k"
  shows "SelectSubArray_checked m n inp s len = Some (SelectSubArray inp s len n)"
proof -
  have r: "GreaterThan_range k len (int i)" if "i < n" for i
    using that nk l kp by (intro GreaterThan_small) simp_all
  have g: "GreaterThan k len (int i) = (if int i < len then 1 else 0)" if "i < n" for i
    using that nk l kp by (intro GreaterThan_small) simp_all
  have v: "fmul (GreaterThan k len (int i)) (VarShiftLeft inp s n ! i)
      = (if int i < len then VarShiftLeft inp s n ! i else 0)" if "i < n" for i
  proof -
    have "0 < length inp" using that n by linarith
    then have "(nat s + i) mod length inp < length inp" by simp
    then have "0 \<le> VarShiftLeft inp s n ! i \<and> VarShiftLeft inp s n ! i < 256"
      using is_bytes_nth [OF b] that n s by (simp add: VarShiftLeft_nth)
    then show ?thesis using p_field_pos by (simp add: g [OF that] fmul_1 fmul_0)
  qed
  have "list_all (\<lambda>i. GreaterThan_range k len (int i)) [0..<n]"
    using r by (simp add: list_all_iff)
  moreover have "map (\<lambda>i. fmul (GreaterThan k len (int i)) (VarShiftLeft inp s n ! i)) [0..<n]
      = SelectSubArray inp s len n"
    unfolding SelectSubArray_def Let_def by (rule map_cong) (simp_all add: v)
  ultimately show ?thesis
    using s by (simp add: SelectSubArray_checked_def k VarShiftLeft_range_def Num2Bits_def Let_def)
qed

lemma SelectSubArray_checked_out_of_range:
  assumes "\<not> (0 \<le> s \<and> s < 2 ^ log2Ceil m)"
  shows "SelectSubArray_checked m n inp s len = None"
  using assms by (auto simp: SelectSubArray_checked_def VarShiftLeft_range_def Num2Bits_def Let_def)

lemma fsub_wrap: "0 \<le> a \<Longrightarrow> a < b \<Longrightarrow> b \<le> p_field \<Longrightarrow> fsub a b = a - b + p_field"
proof -
  assume a: "0 \<le> a" "a < b" "b \<le> p_field"
  have "(a - b) mod p_field = (a - b + p_field) mod p_field" by simp
  also have "\<dots> = a - b + p_field" using a by (intro mod_pos_pos_trivial) simp_all
  finally show ?thesis by (simp add: fsub_def)
qed

lemma anchor_start_range:
  assumes "0 \<le> start" "start < p_field"
  shows "(0 \<le> fsub start 2 \<and> fsub start 2 < 1024) \<longleftrightarrow> 2 \<le> start \<and> start \<le> 1025"
proof (cases "2 \<le> start")
  case True
  then have "fsub start 2 = start - 2" using assms by (intro fsub_small) simp_all
  then show ?thesis using True by auto
next
  case False
  then have "fsub start 2 = start - 2 + p_field"
    using assms by (intro fsub_wrap) (simp_all add: p_field_def)
  then show ?thesis using False assms by (simp add: p_field_def)
qed

lemma anchor_check_iff:
  assumes b: "is_bytes hdr" and len: "length hdr = 1024" and st: "0 \<le> start" "start < p_field"
  shows "anchor_check hdr start \<longleftrightarrow>
    2 \<le> start \<and> start \<le> 1025
    \<and> hdr ! nat (start - 2) = 13 \<and> hdr ! (nat (start - 1) mod 1024) = 10"
proof (cases "2 \<le> start \<and> start \<le> 1025")
  case False
  then have "\<not> (0 \<le> fsub start 2 \<and> fsub start 2 < 2 ^ log2Ceil max_header_bytes)"
    using anchor_start_range [OF st] by (simp add: max_header_bytes_def log2Ceil_values)
  then have "SelectSubArray_checked max_header_bytes 2 hdr (fsub start 2) 2 = None"
    by (rule SelectSubArray_checked_out_of_range)
  then show ?thesis using False by (auto simp: anchor_check_def)
next
  case True
  then have s: "fsub start 2 = start - 2" using st by (intro fsub_small) simp_all
  have c: "SelectSubArray_checked max_header_bytes 2 hdr (start - 2) 2
      = Some (SelectSubArray hdr (start - 2) 2 2)"
    using True by (intro SelectSubArray_checked_in_range [OF b, where k = 1])
      (simp_all add: len max_header_bytes_def log2Ceil_values p_field_def)
  let ?a = "SelectSubArray hdr (start - 2) 2 2"
  have "nat (start - 2) < 1024" using True by linarith
  then have "nat (start - 2) mod 1024 = nat (start - 2)" by (rule mod_less)
  then have a0: "?a ! 0 = hdr ! nat (start - 2)"
    using True by (simp add: SelectSubArray_nth len)
  have "(nat (start - 2) + 1) = nat (start - 1)" using True by linarith
  then have a1: "?a ! 1 = hdr ! (nat (start - 1) mod 1024)"
    using True by (simp add: SelectSubArray_nth len)
  have b0: "0 \<le> ?a ! 0 \<and> ?a ! 0 < 256" and b1: "0 \<le> ?a ! 1 \<and> ?a ! 1 < 256"
    using b True by (simp_all add: SelectSubArray_byte len)
  have r: "fsub (?a ! 0) 13 = 0 \<longleftrightarrow> ?a ! 0 = 13" "fsub (?a ! 1) 10 = 0 \<longleftrightarrow> ?a ! 1 = 10"
    using b0 b1 p_field_pos by (simp_all add: fsub_eq_0_iff)
  have one: "fsub 1 0 = 1" by (simp add: fsub_def p_field_def)
  have m: "fmul 1 (fsub x y) = fsub x y" for x y
    by (simp add: fmul_def fsub_def)
  have nz: "start \<noteq> 0" using True by simp
  show ?thesis
    using True nz r by (simp add: anchor_check_def s c IsZero_def one m a0 a1 del: One_nat_def)
qed

lemma list5_nth: "length xs = 5 \<Longrightarrow> xs = [xs ! 0, xs ! 1, xs ! 2, xs ! 3, xs ! 4]"
  by (rule nth_equalityI) (auto simp: less_Suc_eq numeral_eq_Suc)

lemma fromPrefix_check_iff:
  assumes b: "is_bytes hdr" and len: "length hdr = 1024" and st: "0 \<le> fs" "fs + 5 \<le> 1024"
  shows "fromPrefix_check hdr fs \<longleftrightarrow>
    take 5 (drop (nat fs) hdr) = [102, 114, 111, 109, 58]"
proof -
  have c: "SelectSubArray_checked max_header_bytes 5 hdr fs 5 = Some (SelectSubArray hdr fs 5 5)"
    using st by (intro SelectSubArray_checked_in_range [OF b, where k = 3])
      (simp_all add: len max_header_bytes_def log2Ceil_values p_field_def)
  have "SelectSubArray hdr fs 5 5 = take 5 (drop (nat fs) hdr)"
  proof (rule nth_equalityI)
    show "length (SelectSubArray hdr fs 5 5) = length (take 5 (drop (nat fs) hdr))"
      using st by (simp add: len)
  next
    fix i assume "i < length (SelectSubArray hdr fs 5 5)"
    then have i: "i < 5" by simp
    then have "(nat fs + i) mod 1024 = nat fs + i" using st by simp
    then show "SelectSubArray hdr fs 5 5 ! i = take 5 (drop (nat fs) hdr) ! i"
      using i st by (simp add: SelectSubArray_nth len)
  qed
  then show ?thesis by (simp add: fromPrefix_check_def c)
qed

lemma fromNoNewline_check_iff:
  assumes b: "is_bytes hdr" and len: "length hdr = 1024"
    and st: "0 \<le> fs" "fs + 5 < 1024" "fs + 5 \<le> fa" "fa - (fs + 5) \<le> 256"
  shows "fromNoNewline_check hdr fs fa \<longleftrightarrow>
    (\<forall>i<255. int i < fa - (fs + 5) \<longrightarrow>
       hdr ! ((nat (fs + 5) + i) mod 1024) \<noteq> 13 \<and> hdr ! ((nat (fs + 5) + i) mod 1024) \<noteq> 10)"
proof -
  have gs: "fadd fs 5 = fs + 5"
    using st by (intro fadd_small) (simp_all add: p_field_def)
  have gl: "fsub fa (fs + 5) = fa - (fs + 5)"
    using st by (intro fsub_small) (simp_all add: p_field_def)
  let ?g = "SelectSubArray hdr (fs + 5) (fa - (fs + 5)) 255"
  have c: "SelectSubArray_checked max_header_bytes 255 hdr (fs + 5) (fa - (fs + 5)) = Some ?g"
    using st by (intro SelectSubArray_checked_in_range [OF b, where k = 8])
      (simp_all add: len max_header_bytes_def log2Ceil_values p_field_def)
  have ok: "IsZero (fmul (fsub (?g ! i) 13) (fsub (?g ! i) 10)) = 0 \<longleftrightarrow>
      ?g ! i \<noteq> 13 \<and> ?g ! i \<noteq> 10" if "i < 255" for i
    using SelectSubArray_byte [OF b that, of "fs + 5"] st by (simp add: gap_byte_ok len)
  have "fromNoNewline_check hdr fs fa \<longleftrightarrow> (\<forall>i<255. ?g ! i \<noteq> 13 \<and> ?g ! i \<noteq> 10)"
    by (simp add: fromNoNewline_check_def gs gl c list_all_length ok Let_def)
  also have "\<dots> \<longleftrightarrow> (\<forall>i<255. int i < fa - (fs + 5) \<longrightarrow>
       hdr ! ((nat (fs + 5) + i) mod 1024) \<noteq> 13 \<and> hdr ! ((nat (fs + 5) + i) mod 1024) \<noteq> 10)"
    using st by (auto simp: SelectSubArray_nth len)
  finally show ?thesis .
qed

lemma fromNoNewline_check_long_gap:
  assumes st: "0 \<le> fs" "fa < 1024" "256 < fa - (fs + 5)"
  shows "\<not> fromNoNewline_check hdr fs fa"
proof -
  have gs: "fadd fs 5 = fs + 5"
    using st by (intro fadd_small) (simp_all add: p_field_def)
  have gl: "fsub fa (fs + 5) = fa - (fs + 5)"
    using st by (intro fsub_small) (simp_all add: p_field_def)
  have "fsub 256 (fa - (fs + 5)) = 256 - (fa - (fs + 5)) + p_field"
    using st by (intro fsub_wrap) (simp_all add: p_field_def)
  then have "\<not> GreaterThan_range 8 (fa - (fs + 5)) (int 0)"
    using st by (simp add: GreaterThan_range_def GreaterThan_in_def Num2Bits_def fadd_def p_field_def)
  then have "\<not> list_all (\<lambda>i. GreaterThan_range 8 (fa - (fs + 5)) (int i)) [0..<255]"
    by (simp add: list_all_iff del: of_nat_0) (rule bexI [of _ 0], simp_all)
  then have "SelectSubArray_checked max_header_bytes 255 hdr (fs + 5) (fa - (fs + 5)) = None"
    by (simp add: SelectSubArray_checked_def log2Ceil_values Let_def)
  then show ?thesis by (simp add: fromNoNewline_check_def gs gl)
qed

text \<open>
  C1. The anchor constraints of Subject, From and Date. At start index 0 they cannot be
  satisfied, whatever the header: the window is selected at \<open>start - 2\<close>, which is
  \<open>p_field - 2\<close> in the field and has no decomposition into the 10 bits of the shift.
  (The comment of lines 49-51 announces that the check is skipped there.) For every other
  start index of a header of \<open>max_header_bytes\<close> bytes they hold exactly when
  \<open>2 \<le> start \<le> 1025\<close> and the two entries before \<open>start\<close> are CR (13) and LF (10),
  the second index wrapping around at the end of the buffer.
\<close>

theorem anchor_rule:
  "\<not> anchor_check hdr 0
    \<and> (is_bytes hdr \<and> length hdr = max_header_bytes \<and> 0 \<le> start \<and> start < p_field \<longrightarrow>
        (anchor_check hdr start \<longleftrightarrow>
          2 \<le> start \<and> start \<le> 1025
          \<and> hdr ! nat (start - 2) = 13 \<and> hdr ! (nat (start - 1) mod 1024) = 10))"
proof -
  have "fsub 0 2 = p_field - 2" by (simp add: fsub_def p_field_def)
  then have "\<not> (0 \<le> fsub 0 2 \<and> fsub 0 2 < 2 ^ log2Ceil max_header_bytes)"
    by (simp add: max_header_bytes_def log2Ceil_values p_field_def)
  then have "SelectSubArray_checked max_header_bytes 2 hdr (fsub 0 2) 2 = None"
    by (rule SelectSubArray_checked_out_of_range)
  then have "\<not> anchor_check hdr 0" by (simp add: anchor_check_def)
  then show ?thesis
    using anchor_check_iff [of hdr start] by (simp add: max_header_bytes_def)
qed

theorem anchor_rule_witness:
  "\<not> anchor_check ([115, 117, 98, 106, 101, 99, 116, 58, 114, 101, 99, 111, 118, 101, 114, 45, 114, 49, 32, 97, 46, 110, 101, 97, 114, 32, 101, 100, 50, 53, 53, 49, 57, 58, 75, 13, 10, 102, 114, 111, 109, 58, 97, 64, 98, 46, 99, 13, 10] @ replicate 975 0) 0
    \<and> anchor_check ([115, 117, 98, 106, 101, 99, 116, 58, 114, 101, 99, 111, 118, 101, 114, 45, 114, 49, 32, 97, 46, 110, 101, 97, 114, 32, 101, 100, 50, 53, 53, 49, 57, 58, 75, 13, 10, 102, 114, 111, 109, 58, 97, 64, 98, 46, 99, 13, 10] @ replicate 975 0) 37
    \<and> \<not> anchor_check ([115, 117, 98, 106, 101, 99, 116, 58, 114, 101, 99, 111, 118, 101, 114, 45, 114, 49, 32, 97, 46, 110, 101, 97, 114, 32, 101, 100, 50, 53, 53, 49, 57, 58, 75, 13, 10, 102, 114, 111, 109, 58, 97, 64, 98, 46, 99, 13, 10] @ replicate 975 0) 38"
proof -
  let ?h = "[115, 117, 98, 106, 101, 99, 116, 58, 114, 101, 99, 111, 118, 101, 114, 45, 114, 49, 32, 97, 46, 110, 101, 97, 114, 32, 101, 100, 50, 53, 53, 49, 57, 58, 75, 13, 10, 102, 114, 111, 109, 58, 97, 64, 98, 46, 99, 13, 10] @ replicate 975 0 :: int list"
  have b: "is_bytes ?h" by (simp add: is_bytes_def list_all_iff)
  have l: "length ?h = max_header_bytes" by (simp add: max_header_bytes_def)
  show ?thesis
    using anchor_rule [of ?h 0] anchor_rule [of ?h 37] anchor_rule [of ?h 38] b l
    by (simp add: p_field_def)
qed

text \<open>
  C5. A From line anchored after CR LF at index 6, its address at index 267: the gap
  between the end of \<open>from:\<close> (index 11) and the address has 256 bytes, the last of
  them, at index 266, is LF (10), and the anchor, prefix and gap constraints all hold.
  The length 256 passes the length comparison of the 255-entry window, so the last gap
  byte is not among the entries the loop of lines 190-196 examines.
\<close>

theorem from_gap_last_byte_unread:
  "anchor_check ([116, 111, 58, 120, 13, 10, 102, 114, 111, 109, 58] @ replicate 255 32 @ [10] @ [97, 64, 98, 46, 99, 13, 10] @ replicate 750 0) 6
    \<and> fromPrefix_check ([116, 111, 58, 120, 13, 10, 102, 114, 111, 109, 58] @ replicate 255 32 @ [10] @ [97, 64, 98, 46, 99, 13, 10] @ replicate 750 0) 6
    \<and> fromNoNewline_check ([116, 111, 58, 120, 13, 10, 102, 114, 111, 109, 58] @ replicate 255 32 @ [10] @ [97, 64, 98, 46, 99, 13, 10] @ replicate 750 0) 6 267
    \<and> ([116, 111, 58, 120, 13, 10, 102, 114, 111, 109, 58] @ replicate 255 32 @ [10] @ [97, 64, 98, 46, 99, 13, 10] @ replicate 750 0) ! 266 = (10::int)
    \<and> length ([116, 111, 58, 120, 13, 10, 102, 114, 111, 109, 58] @ replicate 255 32 @ [10] @ [97, 64, 98, 46, 99, 13, 10] @ replicate 750 0 :: int list) = max_header_bytes"
proof -
  let ?h = "[116, 111, 58, 120, 13, 10, 102, 114, 111, 109, 58] @ replicate 255 32 @ [10] @ [97, 64, 98, 46, 99, 13, 10] @ replicate 750 0 :: int list"
  have b: "is_bytes ?h" by (simp add: is_bytes_def list_all_iff)
  have l: "length ?h = 1024" by simp
  have a: "anchor_check ?h 6"
    using anchor_check_iff [OF b l, of 6] by (simp add: p_field_def)
  have p: "fromPrefix_check ?h 6"
    using fromPrefix_check_iff [OF b l, of 6] by simp
  have n: "fromNoNewline_check ?h 6 267"
    using fromNoNewline_check_iff [OF b l, of 6 267] by (simp add: nth_append)
  have "?h ! 266 = 10" by (simp add: nth_append)
  with a p n show ?thesis by (simp add: max_header_bytes_def)
qed

lemma length_le_bytes [simp]: "length (le_bytes n v) = n"
  by (induction n arbitrary: v) auto

lemma readUIntLE_le_bytes: "readUIntLE (le_bytes n v) = v mod 256 ^ n"
proof (induction n arbitrary: v)
  case 0
  then show ?case by simp
next
  case (Suc n)
  have "unat (of_nat (v mod 256) :: byte) = v mod 256"
    by (simp add: unat_of_nat)
  then have "readUIntLE (le_bytes (Suc n) v) = v mod 256 + 256 * ((v div 256) mod 256 ^ n)"
    by (simp add: Suc)
  also have "\<dots> = v mod (256 * 256 ^ n)"
    by (simp add: mod_mult2_eq)
  finally show ?case by simp
qed

lemma le_bytes_readUIntLE: "le_bytes (length bs) (readUIntLE bs) = bs"
proof (induction bs)
  case Nil
  then show ?case by simp
next
  case (Cons b bs)
  have lt: "unat b < 256" using unsigned_less [of b, where ?'a = nat] by simp
  then have "(unat b + 256 * readUIntLE bs) mod 256 = unat b"
    and "(unat b + 256 * readUIntLE bs) div 256 = readUIntLE bs"
    by simp_all
  then show ?case by (simp add: Cons)
qed

lemma readUIntLE_bound: "readUIntLE bs < 256 ^ length bs"
proof (induction bs)
  case Nil
  then show ?case by simp
next
  case (Cons b bs)
  have lt: "unat b < 256" using unsigned_less [of b, where ?'a = nat] by simp
  have "readUIntLE bs + 1 \<le> 256 ^ length bs" using Cons by simp
  then have "256 * (readUIntLE bs + 1) \<le> 256 * 256 ^ length bs"
    by (rule mult_le_mono2)
  with lt show ?case by simp
qed

lemma length_section_bytes: "length (section_bytes s) = 12 + length (snd s)"
  by (simp add: section_bytes_def)


lemma readUInt32LE_header:
  "readUInt32LE (le_bytes 4 t @ le_bytes 8 n) 0 = t mod 2 ^ 32"
proof -
  have "take 4 (le_bytes 4 t @ le_bytes 8 n) = le_bytes 4 t" by simp
  then show ?thesis by (simp add: readUInt32LE_def readUIntLE_le_bytes)
qed

lemma readBigUInt64LE_header:
  "readBigUInt64LE (le_bytes 4 t @ le_bytes 8 n) 4 = n mod 2 ^ 64"
proof -
  have "take 8 (drop 4 (le_bytes 4 t @ le_bytes 8 n)) = le_bytes 8 n" by simp
  then show ?thesis by (simp add: readBigUInt64LE_def readUIntLE_le_bytes)
qed

lemma read_sections_step:
  assumes "take 12 (drop pos f) = le_bytes 4 t @ le_bytes 8 n"
    and "t < 2 ^ 32" and "n < 2 ^ 64" and "t \<notin> seen" and "pos + 12 + n \<le> length f"
  shows "read_sections f (Suc k) i seen pos
    = read_sections f k (i + 1) (insert t seen) (pos + (12 + n))"
  using assms(2-5)
  by (simp add: assms(1) readUInt32LE_header readBigUInt64LE_header Let_def)

lemma read_sections_encoded:
  assumes "list_all section_fits secs" and "distinct (map fst secs)"
    and "set (map fst secs) \<inter> seen = {}" and "length pre = pos"
  shows "read_sections (pre @ concat (map section_bytes secs) @ suf) (length secs) i seen pos
    = Inr (seen \<union> set (map fst secs), pos + length (concat (map section_bytes secs)))"
  using assms
proof (induction secs arbitrary: pre pos seen i)
  case Nil
  then show ?case by simp
next
  case (Cons s secs)
  obtain t payload where s: "s = (t, payload)" by (cases s)
  let ?file = "pre @ concat (map section_bytes (s # secs)) @ suf"
  let ?rest = "concat (map section_bytes secs) @ suf"
  have fits: "t < 2 ^ 32" "length payload < 2 ^ 64"
    using Cons.prems(1) by (simp_all add: s section_fits_def)
  have fl: "?file = pre @ (le_bytes 4 t @ le_bytes 8 (length payload)) @ payload @ ?rest"
    by (simp add: s section_bytes_def)
  have hdr: "take 12 (drop pos ?file) = le_bytes 4 t @ le_bytes 8 (length payload)"
    unfolding fl using Cons.prems(4) by simp
  have len: "length ?file = pos + 12 + length payload + length ?rest"
    unfolding fl using Cons.prems(4) by simp
  have notin: "t \<notin> seen" using Cons.prems(3) by (auto simp: s)
  have step: "read_sections ?file (Suc (length secs)) i seen pos
      = read_sections ?file (length secs) (i + 1) (insert t seen) (pos + (12 + length payload))"
    by (rule read_sections_step [OF hdr fits notin]) (simp only: len)
  have fl': "?file = (pre @ section_bytes s) @ concat (map section_bytes secs) @ suf"
    by simp
  have "read_sections ((pre @ section_bytes s) @ concat (map section_bytes secs) @ suf)
      (length secs) (i + 1) (insert t seen) (pos + (12 + length payload))
    = Inr (insert t seen \<union> set (map fst secs),
        pos + (12 + length payload) + length (concat (map section_bytes secs)))"
  proof (rule Cons.IH)
    show "list_all section_fits secs" using Cons.prems(1) by simp
    show "distinct (map fst secs)" using Cons.prems(2) by simp
    show "set (map fst secs) \<inter> insert t seen = {}"
      using Cons.prems(2,3) by (auto simp: s)
    show "length (pre @ section_bytes s) = pos + (12 + length payload)"
      using Cons.prems(4) by (simp add: length_section_bytes s)
  qed
  then show ?case
    unfolding length_Cons step fl' [symmetric]
    by (simp add: s length_section_bytes)
qed

lemma take_drop_split:
  "a + b \<le> length xs - p \<Longrightarrow>
    take (a + b) (drop p xs) = take a (drop p xs) @ take b (drop (p + a) xs)"
  by (simp add: take_add add.commute)

lemma read_sections_decode:
  assumes "read_sections file k i seen pos = Inr (seen', pos')" and "pos \<le> length file"
  shows "\<exists>secs. length secs = k
      \<and> take (pos' - pos) (drop pos file) = concat (map section_bytes secs)
      \<and> pos \<le> pos' \<and> pos' \<le> length file
      \<and> seen' = seen \<union> set (map fst secs)
      \<and> distinct (map fst secs)
      \<and> set (map fst secs) \<inter> seen = {}
      \<and> list_all section_fits secs"
  using assms
proof (induction k arbitrary: i seen pos)
  case 0
  then show ?case by simp
next
  case (Suc k)
  let ?h = "take 12 (drop pos file)"
  let ?t = "readUInt32LE ?h 0" and ?n = "readBigUInt64LE ?h 4"
  from Suc.prems(1) have fit: "pos + 12 \<le> length file"
    by (simp split: if_splits)
  from Suc.prems(1) fit have notin: "?t \<notin> seen"
    by (simp add: Let_def split: if_splits)
  from Suc.prems(1) fit notin have inside: "pos + (12 + ?n) \<le> length file"
    by (simp add: Let_def split: if_splits)
  from Suc.prems(1) fit notin inside
  have rec: "read_sections file k (i + 1) (insert ?t seen) (pos + (12 + ?n)) = Inr (seen', pos')"
    by (simp add: Let_def)
  from Suc.IH [OF rec inside] obtain secs where secs:
    "length secs = k"
    "take (pos' - (pos + (12 + ?n))) (drop (pos + (12 + ?n)) file) = concat (map section_bytes secs)"
    "pos + (12 + ?n) \<le> pos'" "pos' \<le> length file"
    "seen' = insert ?t seen \<union> set (map fst secs)"
    "distinct (map fst secs)"
    "set (map fst secs) \<inter> insert ?t seen = {}"
    "list_all section_fits secs"
    by blast
  let ?payload = "take ?n (drop (pos + 12) file)"
  let ?s = "(?t, ?payload)"
  have lp: "length ?payload = ?n" using inside by simp
  have lh: "length ?h = 12" using fit by simp
  have h4: "le_bytes 4 ?t = take 4 ?h"
  proof -
    have "le_bytes (length (take 4 (drop 0 ?h))) (readUIntLE (take 4 (drop 0 ?h))) = take 4 (drop 0 ?h)"
      by (rule le_bytes_readUIntLE)
    then show ?thesis using lh by (simp add: readUInt32LE_def)
  qed
  have h8: "le_bytes 8 ?n = drop 4 ?h"
  proof -
    have "le_bytes (length (take 8 (drop 4 ?h))) (readUIntLE (take 8 (drop 4 ?h))) = take 8 (drop 4 ?h)"
      by (rule le_bytes_readUIntLE)
    then show ?thesis using lh by (simp add: readBigUInt64LE_def)
  qed
  have hh: "le_bytes 4 ?t @ le_bytes 8 ?n = ?h"
    unfolding h4 h8 by (rule append_take_drop_id)
  have "section_bytes ?s = (le_bytes 4 ?t @ le_bytes 8 (length ?payload)) @ ?payload"
    by (simp only: section_bytes_def fst_conv snd_conv append_assoc)
  then have sb: "section_bytes ?s = ?h @ ?payload"
    by (simp only: lp hh)
  have bt: "?t < 2 ^ 32"
    using readUIntLE_bound [of "take 4 (drop 0 ?h)"] lh by (simp add: readUInt32LE_def)
  have bn: "?n < 2 ^ 64"
    using readUIntLE_bound [of "take 8 (drop 4 ?h)"] lh by (simp add: readBigUInt64LE_def)
  have fits: "section_fits ?s" using bt bn by (simp add: section_fits_def lp)
  have split1: "take (pos' - pos) (drop pos file)
      = take (12 + ?n) (drop pos file) @ take (pos' - (pos + (12 + ?n))) (drop (pos + (12 + ?n)) file)"
  proof -
    have e: "pos' - pos = (12 + ?n) + (pos' - (pos + (12 + ?n)))" using secs(3) by simp
    have le: "(12 + ?n) + (pos' - (pos + (12 + ?n))) \<le> length file - pos"
      using secs(3,4) by simp
    show ?thesis
      by (subst e) (rule take_drop_split [OF le])
  qed
  have split2: "take (12 + ?n) (drop pos file) = ?h @ ?payload"
    by (rule take_drop_split) (use inside in simp)
  have "take (pos' - pos) (drop pos file) = concat (map section_bytes (?s # secs))"
    unfolding split1 split2 secs(2) by (simp add: sb del: append_assoc)
  moreover have "length (?s # secs) = Suc k" using secs(1) by simp
  moreover have "pos \<le> pos'" using secs(3) by simp
  moreover have "seen' = seen \<union> set (map fst (?s # secs))" using secs(5) by simp
  moreover have "distinct (map fst (?s # secs))" using secs(6,7) by auto
  moreover have "set (map fst (?s # secs)) \<inter> seen = {}" using secs(7) notin by auto
  moreover have "list_all section_fits (?s # secs)" using secs(8) fits by simp
  ultimately show ?case using secs(4) by blast
qed


lemma set_REQUIRED_SECTIONS: "set REQUIRED_SECTIONS = {1..10}"
proof (intro equalityI subsetI)
  fix x
  assume "x \<in> set REQUIRED_SECTIONS"
  then show "x \<in> {1..10}" by (auto simp: REQUIRED_SECTIONS_def)
next
  fix x :: nat
  assume "x \<in> {1..10}"
  then have "1 \<le> x" "x \<le> 10" by simp_all
  then have "x = 1 \<or> x = 2 \<or> x = 3 \<or> x = 4 \<or> x = 5 \<or> x = 6 \<or> x = 7 \<or> x = 8 \<or> x = 9 \<or> x = 10"
    by presburger
  then show "x \<in> set REQUIRED_SECTIONS"
    unfolding REQUIRED_SECTIONS_def by fastforce
qed

lemma header_fields:
  assumes "12 \<le> length f"
  shows "take 12 f = take 4 (take 12 f)
      @ le_bytes 4 (readUInt32LE (take 12 f) 4) @ le_bytes 4 (readUInt32LE (take 12 f) 8)"
proof -
  let ?h = "take 12 f"
  have lh: "length ?h = 12" using assms by simp
  have a: "le_bytes 4 (readUInt32LE ?h 4) = take 4 (drop 4 ?h)"
    using le_bytes_readUIntLE [of "take 4 (drop 4 ?h)"] lh by (simp add: readUInt32LE_def)
  have b: "le_bytes 4 (readUInt32LE ?h 8) = take 4 (drop 8 ?h)"
    using le_bytes_readUIntLE [of "take 4 (drop 8 ?h)"] lh by (simp add: readUInt32LE_def)
  have "?h = take 4 ?h @ drop 4 ?h"
    by (simp only: append_take_drop_id)
  also have "drop 4 ?h = take 4 (drop 4 ?h) @ drop 4 (drop 4 ?h)"
    by (simp only: append_take_drop_id)
  also have "drop 4 (drop 4 ?h) = take 4 (drop 8 ?h)" using lh by simp
  finally show ?thesis unfolding a b .
qed

lemma check_Ok_imp_layout:
  assumes "checkGroth16ZkeyLayout f = Ok"
  shows "zkey_layout_ok f"
proof -
  let ?h = "take 12 f"
  from assms have len: "12 \<le> length f"
    by (simp add: checkGroth16ZkeyLayout_def Let_def split: if_splits)
  from assms len have magic: "take 4 ?h = zkey_magic"
    by (simp add: checkGroth16ZkeyLayout_def Let_def split: if_splits)
  from assms len magic have version: "readUInt32LE ?h 4 = 1"
    by (simp add: checkGroth16ZkeyLayout_def Let_def split: if_splits)
  from assms len magic version have nsec: "readUInt32LE ?h 8 = 10"
    by (simp add: checkGroth16ZkeyLayout_def Let_def split: if_splits)
  from assms len magic version nsec
  obtain seen where loop: "read_sections f 10 0 {} 12 = Inr (seen, length f)"
    and req: "find (\<lambda>section. section \<notin> seen) REQUIRED_SECTIONS = None"
    by (simp add: checkGroth16ZkeyLayout_def Let_def
        split: if_splits sum.splits prod.splits option.splits)
  from read_sections_decode [OF loop len] obtain secs where secs:
    "length secs = 10"
    "take (length f - 12) (drop 12 f) = concat (map section_bytes secs)"
    "seen = {} \<union> set (map fst secs)"
    "distinct (map fst secs)"
    "list_all section_fits secs"
    by blast
  have sub: "{1..10} \<subseteq> set (map fst secs)"
    using req secs(3) by (auto simp: find_None_iff set_REQUIRED_SECTIONS)
  have "card (set (map fst secs)) = 10"
    using distinct_card [OF secs(4)] secs(1) by simp
  then have eq: "set (map fst secs) = {1..10}"
    using card_subset_eq [of "set (map fst secs)" "{1..10}"] sub by simp
  have "f = ?h @ drop 12 f" by simp
  also have "drop 12 f = concat (map section_bytes secs)"
    using secs(2) by simp
  also have "?h = zkey_magic @ le_bytes 4 1 @ le_bytes 4 10"
    using header_fields [OF len] by (simp only: magic version nsec)
  finally have "f = zkey_magic @ le_bytes 4 1 @ le_bytes 4 10 @ concat (map section_bytes secs)"
    by simp
  with secs(1,4,5) eq show ?thesis
    unfolding zkey_layout_ok_def by blast
qed

lemma layout_imp_check_Ok:
  assumes "zkey_layout_ok f"
  shows "checkGroth16ZkeyLayout f = Ok"
proof -
  from assms obtain secs where f: "f = (zkey_magic @ le_bytes 4 1 @ le_bytes 4 10) @ concat (map section_bytes secs) @ []"
    and secs: "length secs = 10" "list_all section_fits secs" "distinct (map fst secs)"
      "set (map fst secs) = {1..10}"
    unfolding zkey_layout_ok_def by auto
  let ?pre = "zkey_magic @ le_bytes 4 1 @ le_bytes 4 10"
  have lpre: "length ?pre = 12" by (simp add: zkey_magic_def)
  have h: "take 12 f = ?pre" unfolding f using lpre by simp
  have len: "length f = 12 + length (concat (map section_bytes secs))"
    unfolding f using lpre by simp
  have magic: "take 4 (take 12 f) = zkey_magic"
    unfolding h by (simp add: zkey_magic_def)
  have version: "readUInt32LE (take 12 f) 4 = 1"
    unfolding h by (simp add: readUInt32LE_def zkey_magic_def readUIntLE_le_bytes)
  have nsec: "readUInt32LE (take 12 f) 8 = 10"
    unfolding h by (simp add: readUInt32LE_def zkey_magic_def readUIntLE_le_bytes)
  have "read_sections (?pre @ concat (map section_bytes secs) @ []) (length secs) 0 {} 12
      = Inr ({} \<union> set (map fst secs), 12 + length (concat (map section_bytes secs)))"
    by (rule read_sections_encoded) (use secs lpre in simp_all)
  then have loop: "read_sections f 10 0 {} 12 = Inr ({1..10}, length f)"
    using secs(1,4) len f by simp
  have req: "find (\<lambda>section. section \<notin> {1..10}) REQUIRED_SECTIONS = None"
    by (simp add: find_None_iff set_REQUIRED_SECTIONS)
  have ge: "\<not> length f < 12" using len by simp
  show ?thesis
    unfolding checkGroth16ZkeyLayout_def Let_def
    by (simp only: ge magic version nsec loop req if_False if_True simp_thms
        sum.case prod.case option.case)
qed

text \<open>
  C8. The layout check accepts a byte sequence exactly when it is the magic tag
  \<open>zkey\<close>, version 1, section count 10, followed by exactly ten consecutive sections
  \<open>{type: uint32, size: uint64, payload}\<close> that end at the end of the file, with no
  section type twice and every type from 1 to 10 present; every other file is answered
  with a reason.
\<close>

theorem zkey_layout_check:
  "(checkGroth16ZkeyLayout f = Ok \<longleftrightarrow> zkey_layout_ok f)
    \<and> (\<not> zkey_layout_ok f \<longrightarrow> (\<exists>r. checkGroth16ZkeyLayout f = NotOk r))"
proof -
  have iff: "checkGroth16ZkeyLayout f = Ok \<longleftrightarrow> zkey_layout_ok f"
    using check_Ok_imp_layout layout_imp_check_Ok by blast
  then show ?thesis
    by (cases "checkGroth16ZkeyLayout f") auto
qed


theorem zkey_layout_check_witness:
  "zkey_layout_ok
    [122, 107, 101, 121, 1, 0, 0, 0, 10, 0, 0, 0, 1, 0, 0, 0, 2, 0, 0, 0, 0, 0, 0, 0,
      170, 187, 2, 0, 0, 0, 0, 0, 0, 0, 0, 0, 0, 0, 3, 0, 0, 0, 0, 0, 0, 0, 0, 0, 0,
      0, 4, 0, 0, 0, 0, 0, 0, 0, 0, 0, 0, 0, 5, 0, 0, 0, 0, 0, 0, 0, 0, 0, 0, 0, 6, 0,
      0, 0, 0, 0, 0, 0, 0, 0, 0, 0, 7, 0, 0, 0, 0, 0, 0, 0, 0, 0, 0, 0, 8, 0, 0, 0, 0,
      0, 0, 0, 0, 0, 0, 0, 9, 0, 0, 0, 0, 0, 0, 0, 0, 0, 0, 0, 10, 0, 0, 0, 0, 0, 0,
      0, 0, 0, 0, 0]
  \<and> \<not> zkey_layout_ok
    [122, 107, 101, 121, 1, 0, 0, 0, 10, 0, 0, 0, 1, 0, 0, 0, 2, 0, 0, 0, 0, 0, 0, 0,
      170, 187, 1, 0, 0, 0, 0, 0, 0, 0, 0, 0, 0, 0, 3, 0, 0, 0, 0, 0, 0, 0, 0, 0, 0,
      0, 4, 0, 0, 0, 0, 0, 0, 0, 0, 0, 0, 0, 5, 0, 0, 0, 0, 0, 0, 0, 0, 0, 0, 0, 6, 0,
      0, 0, 0, 0, 0, 0, 0, 0, 0, 0, 7, 0, 0, 0, 0, 0, 0, 0, 0, 0, 0, 0, 8, 0, 0, 0, 0,
      0, 0, 0, 0, 0, 0, 0, 9, 0, 0, 0, 0, 0, 0, 0, 0, 0, 0, 0, 10, 0, 0, 0, 0, 0, 0,
      0, 0, 0, 0, 0]"
proof -
  have "checkGroth16ZkeyLayout
    [122, 107, 101, 121, 1, 0, 0, 0, 10, 0, 0, 0, 1, 0, 0, 0, 2, 0, 0, 0, 0, 0, 0, 0,
      170, 187, 2, 0, 0, 0, 0, 0, 0, 0, 0, 0, 0, 0, 3, 0, 0, 0, 0, 0, 0, 0, 0, 0, 0,
      0, 4, 0, 0, 0, 0, 0, 0, 0, 0, 0, 0, 0, 5, 0, 0, 0, 0, 0, 0, 0, 0, 0, 0, 0, 6, 0,
      0, 0, 0, 0, 0, 0, 0, 0, 0, 0, 7, 0, 0, 0, 0, 0, 0, 0, 0, 0, 0, 0, 8, 0, 0, 0, 0,
      0, 0, 0, 0, 0, 0, 0, 9, 0, 0, 0, 0, 0, 0, 0, 0, 0, 0, 0, 10, 0, 0, 0, 0, 0, 0,
      0, 0, 0, 0, 0] = Ok"
    by code_simp
  moreover have "checkGroth16ZkeyLayout
    [122, 107, 101, 121, 1, 0, 0, 0, 10, 0, 0, 0, 1, 0, 0, 0, 2, 0, 0, 0, 0, 0, 0, 0,
      170, 187, 1, 0, 0, 0, 0, 0, 0, 0, 0, 0, 0, 0, 3, 0, 0, 0, 0, 0, 0, 0, 0, 0, 0,
      0, 4, 0, 0, 0, 0, 0, 0, 0, 0, 0, 0, 0, 5, 0, 0, 0, 0, 0, 0, 0, 0, 0, 0, 0, 6, 0,
      0, 0, 0, 0, 0, 0, 0, 0, 0, 0, 7, 0, 0, 0, 0, 0, 0, 0, 0, 0, 0, 0, 8, 0, 0, 0, 0,
      0, 0, 0, 0, 0, 0, 0, 9, 0, 0, 0, 0, 0, 0, 0, 0, 0, 0, 0, 10, 0, 0, 0, 0, 0, 0,
      0, 0, 0, 0, 0] = NotOk (DuplicateSection 1)"
    by code_simp
  ultimately show ?thesis
    using zkey_layout_check [of "[122, 107, 101, 121, 1, 0, 0, 0, 10, 0, 0, 0, 1, 0, 0, 0, 2, 0, 0, 0, 0, 0, 0, 0,
      170, 187, 2, 0, 0, 0, 0, 0, 0, 0, 0, 0, 0, 0, 3, 0, 0, 0, 0, 0, 0, 0, 0, 0, 0,
      0, 4, 0, 0, 0, 0, 0, 0, 0, 0, 0, 0, 0, 5, 0, 0, 0, 0, 0, 0, 0, 0, 0, 0, 0, 6, 0,
      0, 0, 0, 0, 0, 0, 0, 0, 0, 0, 7, 0, 0, 0, 0, 0, 0, 0, 0, 0, 0, 0, 8, 0, 0, 0, 0,
      0, 0, 0, 0, 0, 0, 0, 9, 0, 0, 0, 0, 0, 0, 0, 0, 0, 0, 0, 10, 0, 0, 0, 0, 0, 0,
      0, 0, 0, 0, 0]"]
      zkey_layout_check [of "[122, 107, 101, 121, 1, 0, 0, 0, 10, 0, 0, 0, 1, 0, 0, 0, 2, 0, 0, 0, 0, 0, 0, 0,
      170, 187, 1, 0, 0, 0, 0, 0, 0, 0, 0, 0, 0, 0, 3, 0, 0, 0, 0, 0, 0, 0, 0, 0, 0,
      0, 4, 0, 0, 0, 0, 0, 0, 0, 0, 0, 0, 0, 5, 0, 0, 0, 0, 0, 0, 0, 0, 0, 0, 0, 6, 0,
      0, 0, 0, 0, 0, 0, 0, 0, 0, 0, 7, 0, 0, 0, 0, 0, 0, 0, 0, 0, 0, 0, 8, 0, 0, 0, 0,
      0, 0, 0, 0, 0, 0, 0, 9, 0, 0, 0, 0, 0, 0, 0, 0, 0, 0, 0, 10, 0, 0, 0, 0, 0, 0,
      0, 0, 0, 0, 0]"]
    by simp
qed

lemma lower_case_byte:
  assumes "0 \<le> b" "b < 256"
  shows "lower_case b = ascii_lower b"
  using assms
  by (simp add: lower_case_def ascii_lower_def LessThan_def fsub_def fmul_def fadd_def p_field_def Let_def)

lemma ascii_lower_byte: "0 \<le> b \<Longrightarrow> b < 256 \<Longrightarrow> 0 \<le> ascii_lower b \<and> ascii_lower b < 256"
  by (simp add: ascii_lower_def)

lemma ascii_lower_0 [simp]: "ascii_lower 0 = 0"
  by (simp add: ascii_lower_def)

lemma fadd3_one:
  assumes "0 \<le> a" "a < 256" "0 \<le> b" "b < 256" "0 \<le> c" "c < 256"
  shows "fadd (fadd a b) c = a + b + c"
  using assms by (simp add: fadd_def p_field_def)

lemma SelectSubArray_window:
  assumes "i < n" "n \<le> length hdr" "s + l \<le> length hdr"
  shows "SelectSubArray hdr (int s) (int l) n ! i = (if i < l then hdr ! (s + i) else 0)"
proof -
  have "(s + i) mod length hdr = s + i" if "i < l"
    using that assms by simp
  then show ?thesis
    using assms by (simp add: SelectSubArray_nth)
qed

lemma delta_nth: "k < n \<Longrightarrow> map (\<lambda>i. if i = 0 then c else (0::int)) [0..<n] ! k = (if k = 0 then c else 0)"
  by simp

lemma mod_wrap: "n \<le> a \<Longrightarrow> a < 2 * n \<Longrightarrow> a mod n = a - (n::nat)"
  by (simp add: le_mod_geq)

lemma delim_index:
  assumes "fl \<le> 255" "i < 512"
  shows "(nat (fmul (fsub 512 (int fl)) (fsub 1 (IsZero (int fl)))) + i) mod 512 = 0 \<longleftrightarrow> i = fl"
proof (cases "fl = 0")
  case True
  then show ?thesis using assms by (simp add: IsZero_def fsub_def fmul_def p_field_def)
next
  case False
  have "fsub 512 (int fl) = 512 - int fl"
    using assms by (intro fsub_small) (simp_all add: p_field_def)
  moreover have "fmul (512 - int fl) 1 = 512 - int fl"
    using assms by (simp add: fmul_def p_field_def)
  ultimately have s: "nat (fmul (fsub 512 (int fl)) (fsub 1 (IsZero (int fl)))) = 512 - fl"
    using False assms by (simp add: IsZero_def fsub_def [of 1 0] p_field_def)
  show ?thesis
  proof (cases "i < fl")
    case True
    then have "(512 - fl + i) mod 512 = 512 - fl + i" using assms by simp
    then show ?thesis using True assms False by (simp add: s)
  next
    case ge: False
    have "(512 - fl + i) mod 512 = 512 - fl + i - 512"
      by (rule mod_wrap) (use ge assms in simp_all)
    then show ?thesis using ge assms by (simp add: s)
  qed
qed

lemma account_index:
  assumes "fl \<le> 255" "i < 512"
  shows "(nat (fsub (fsub 512 (int fl)) 1) + i) mod 512
    = (if fl < i then i - fl - 1 else 511 - fl + i)"
proof -
  have "fsub 512 (int fl) = 512 - int fl"
    using assms by (intro fsub_small) (simp_all add: p_field_def)
  moreover have "fsub (512 - int fl) 1 = 511 - int fl"
    using assms fsub_small [of 1 "512 - int fl"] by (simp add: p_field_def)
  ultimately have s: "nat (fsub (fsub 512 (int fl)) 1) = 511 - fl"
    by simp
  show ?thesis
  proof (cases "fl < i")
    case True
    have "(511 - fl + i) mod 512 = 511 - fl + i - 512"
      by (rule mod_wrap) (use True assms in simp_all)
    then show ?thesis using True assms by (simp add: s)
  next
    case False
    then have "(511 - fl + i) mod 512 = 511 - fl + i" using assms by simp
    then show ?thesis using False by (simp add: s)
  qed
qed


lemma preimage_nth:
  assumes fl: "fl \<le> 255" and al: "al \<le> 255" and i: "i < 512"
    and bf: "\<And>j. j < fl \<Longrightarrow> 0 \<le> fromL ! j \<and> fromL ! j < 256"
    and ba: "\<And>j. j < al \<Longrightarrow> 0 \<le> acctL ! j \<and> acctL ! j < 256"
    and zf: "\<And>j. fl \<le> j \<Longrightarrow> j < 255 \<Longrightarrow> fromL ! j = 0"
    and za: "\<And>j. al \<le> j \<Longrightarrow> j < 255 \<Longrightarrow> acctL ! j = 0"
  shows "preimage fromL acctL (int fl) ! i =
    (if i < fl then fromL ! i
     else if i = fl then 124
     else if i < fl + 1 + al then acctL ! (i - fl - 1)
     else 0)"
proof -
  let ?sD = "fmul (fsub 512 (int fl)) (fsub 1 (IsZero (int fl)))"
  let ?sA = "fsub (fsub 512 (int fl)) 1"
  define kD where "kD = (nat ?sD + i) mod 512"
  define kA where "kA = (nat ?sA + i) mod 512"
  define F where "F = (if i < 255 then fromL ! i else 0)"
  define D where "D = (if kD = 0 then 124 else (0::int))"
  define A where "A = (if kA < 255 then acctL ! kA else 0)"
  have sD: "0 \<le> ?sD" by (simp add: fmul_def p_field_def)
  have sA: "0 \<le> ?sA" by (rule fsub_nonneg)
  have kD: "kD < 512" and kA: "kA < 512" by (simp_all add: kD_def kA_def)
  have unfold: "preimage fromL acctL (int fl) ! i = fadd (fadd F D) A"
    using i kD kA sD sA unfolding kD_def kA_def F_def D_def A_def
    by (simp add: preimage_def Let_def VarShiftLeft_nth del: upt_Suc)
  have D: "D = (if i = fl then 124 else 0)"
    using delim_index [OF fl i] by (simp add: D_def kD_def)
  have kA': "kA = (if fl < i then i - fl - 1 else 511 - fl + i)"
    unfolding kA_def by (rule account_index [OF fl i])
  have z3: "fadd (fadd 0 0) 0 = 0" "fadd (fadd 0 124) 0 = 124"
    by (simp_all add: fadd_def p_field_def)
  consider (a) "i < fl" | (b) "i = fl" | (c) "fl < i" "i < fl + 1 + al" | (d) "fl + 1 + al \<le> i"
    by linarith
  then show ?thesis
  proof cases
    case a
    have F': "F = fromL ! i" using a fl by (simp add: F_def)
    have "\<not> kA < 255" using a fl by (simp add: kA')
    then have A': "A = 0" by (simp add: A_def)
    have D': "D = 0" using a by (simp add: D)
    have "fadd (fadd (fromL ! i) 0) 0 = fromL ! i + 0 + 0"
      using bf [OF a] by (intro fadd3_one) simp_all
    then show ?thesis unfolding unfold F' D' A' using a by simp
  next
    case b
    have F': "F = 0" using zf [of i] b by (simp add: F_def)
    have "\<not> kA < 255" using b fl by (simp add: kA')
    then have A': "A = 0" by (simp add: A_def)
    have D': "D = 124" using b by (simp add: D)
    show ?thesis unfolding unfold F' D' A' z3 using b by simp
  next
    case c
    have F': "F = 0" using zf [of i] c by (simp add: F_def)
    have k: "kA = i - fl - 1" using c by (simp add: kA')
    have lt: "i - fl - 1 < al" using c by linarith
    have A': "A = acctL ! (i - fl - 1)" using lt al by (simp add: A_def k)
    have D': "D = 0" using c by (simp add: D)
    have "fadd (fadd 0 0) (acctL ! (i - fl - 1)) = 0 + 0 + acctL ! (i - fl - 1)"
      using ba [OF lt] by (intro fadd3_one) simp_all
    then show ?thesis unfolding unfold F' D' A' using c by simp
  next
    case d
    have F': "F = 0" using zf [of i] d by (simp add: F_def)
    have k: "kA = i - fl - 1" using d by (simp add: kA')
    have ge: "al \<le> i - fl - 1" using d by linarith
    have A': "A = 0" using za [OF ge] by (simp add: A_def k)
    have D': "D = 0" using d by (simp add: D)
    show ?thesis unfolding unfold F' D' A' z3 using d by simp
  qed
qed

lemma length_preimage [simp]: "length (preimage fromL acctL l) = 512"
  by (simp add: preimage_def Let_def del: upt_Suc)

lemma be64_nth:
  assumes "v < 65536" "j < 8"
  shows "be64 v ! j = (if j = 6 then int (v div 256 mod 256) else if j = 7 then int (v mod 256) else 0)"
proof -
  have n: "be64 v ! j = int ((v div 256 ^ (7 - j)) mod 256)"
    using assms(2) by (simp add: be64_def del: upt_Suc)
  consider "j = 7" | "j = 6" | "j < 6" using assms(2) by linarith
  then show ?thesis
  proof cases
    case 1 then show ?thesis unfolding n by simp
  next
    case 2 then show ?thesis unfolding n by simp
  next
    case 3
    have d: "7 - j = Suc (Suc (5 - j))" using 3 by simp
    have "(256::nat) ^ (7 - j) = 65536 * 256 ^ (5 - j)" unfolding d by simp
    then have "v div 256 ^ (7 - j) = 0" using assms(1) by (simp add: div_mult2_eq)
    then show ?thesis using 3 unfolding n by simp
  qed
qed

lemma length_be64 [simp]: "length (be64 v) = 8"
  by (simp add: be64_def del: upt_Suc)


lemma pad_len: "(L + 72) div 64 * 64 = L + 9 + (64 - (L + 9) mod 64) mod (64::nat)"
proof (cases "(L + 9) mod 64 = 0")
  case True
  then obtain k where k: "L + 9 = 64 * k" by (auto simp: mod_eq_0_iff_dvd dvd_def)
  then have "L + 72 = 63 + k * 64" by simp
  then have "(L + 72) div 64 = k" by simp
  then have "(L + 72) div 64 * 64 = L + 9" using k by simp
  then show ?thesis using True by simp
next
  case False
  then have "0 < (L + 9) mod 64" "(L + 9) mod 64 < 64" by simp_all
  then have "(64 - (L + 9) mod 64) mod 64 = 64 - (L + 9) mod 64" by simp
  moreover have "(L + 72) div 64 * 64 = L + 9 + (64 - (L + 9) mod 64)"
  proof -
    define q where "q = (L + 9) div 64"
    define r where "r = (L + 9) mod 64"
    have x: "L + 9 = q * 64 + r" unfolding q_def r_def by simp
    have r: "0 < r" "r < 64" using False unfolding r_def by simp_all
    have "L + 72 = (q + 1) * 64 + (r - 1)" using x r by simp
    then have "(L + 72) div 64 = ((q + 1) * 64 + (r - 1)) div 64" by (rule arg_cong)
    also have "\<dots> = (q + 1) + (r - 1) div 64" by (rule div_mult_self3) simp
    finally have "(L + 72) div 64 = q + 1" using r by simp
    then show ?thesis using x r unfolding r_def [symmetric] by simp
  qed
  ultimately show ?thesis by simp
qed


lemma padded_len_nat:
  assumes "L \<le> 511"
  shows "preimage_padded_len (int L) = int ((L + 72) div 64 * 64)"
proof -
  have "preimage_padded_len (int L) = (int L + 72) div 64 * 64"
    by (rule preimage_padded_len_div) (use assms in simp_all)
  also have "\<dots> = int ((L + 72) div 64 * 64)"
    by (simp add: zdiv_int)
  finally show ?thesis .
qed

lemma padded_len_bounds:
  fixes L :: nat
  assumes "L \<le> 511"
  shows "L + 9 \<le> (L + 72) div 64 * 64" "(L + 72) div 64 * 64 \<le> 576"
proof -
  show "L + 9 \<le> (L + 72) div 64 * 64" unfolding pad_len by simp
  have "(L + 72) div 64 \<le> 583 div 64" by (rule div_le_mono) (use assms in simp)
  then show "(L + 72) div 64 * 64 \<le> 576" by simp
qed

lemma one_index:
  assumes "1 \<le> L" "L \<le> 511" "i < 576"
  shows "(nat (fsub 576 (int L)) + i) mod 576 = 0 \<longleftrightarrow> i = L"
proof -
  have "fsub 576 (int L) = 576 - int L"
    using assms by (intro fsub_small) (simp_all add: p_field_def)
  then have s: "nat (fsub 576 (int L)) = 576 - L" by simp
  show ?thesis
  proof (cases "i < L")
    case True
    then have "(576 - L + i) mod 576 = 576 - L + i" using assms by simp
    then show ?thesis using True assms by (simp add: s)
  next
    case False
    have "(576 - L + i) mod 576 = 576 - L + i - 576"
      by (rule mod_wrap) (use False assms in simp_all)
    then show ?thesis using False assms by (simp add: s)
  qed
qed

lemma len_index:
  assumes "L \<le> 511" "i < 576"
  defines "P \<equiv> (L + 72) div 64 * 64"
  shows "(nat (fsub (fadd 576 8) (preimage_padded_len (int L))) + i) mod 576
    = (if P \<le> i + 8 then i + 8 - P else 584 - P + i)"
proof -
  have P: "L + 9 \<le> P" "P \<le> 576"
    unfolding P_def by (rule padded_len_bounds [OF assms(1)])+
  have "fadd 576 8 = 584" by (simp add: fadd_def p_field_def)
  moreover have "fsub 584 (int P) = 584 - int P"
    using P by (intro fsub_small) (simp_all add: p_field_def)
  ultimately have s: "nat (fsub (fadd 576 8) (preimage_padded_len (int L))) = 584 - P"
    using P by (simp add: padded_len_nat [OF assms(1)] P_def [symmetric])
  show ?thesis
  proof (cases "P \<le> i + 8")
    case True
    have "(584 - P + i) mod 576 = 584 - P + i - 576"
      by (rule mod_wrap) (use True P assms in simp_all)
    then show ?thesis using True P by (simp add: s)
  next
    case False
    then have "(584 - P + i) mod 576 = 584 - P + i" using P by simp
    then show ?thesis using False by (simp add: s)
  qed
qed

lemma length_padded [simp]: "length (from_address_hash_preimage_padded preimg l) = 576"
  by (simp add: from_address_hash_preimage_padded_def Let_def del: upt_Suc)

lemma padded_nth:
  assumes L: "1 \<le> L" "L \<le> 511" and i: "i < 576"
    and pre: "\<And>j. j < 512 \<Longrightarrow> preimg ! j = (if j < L then msg ! j else 0)"
    and bm: "\<And>j. j < L \<Longrightarrow> 0 \<le> msg ! j \<and> msg ! j < 256"
  defines "P \<equiv> (L + 72) div 64 * 64"
  shows "from_address_hash_preimage_padded preimg (int L) ! i =
    (if i < L then msg ! i
     else if i = L then 128
     else if i + 2 = P then int (8 * L div 256 mod 256)
     else if i + 1 = P then int (8 * L mod 256)
     else 0)"
proof -
  let ?sO = "fsub 576 (int L)"
  let ?sN = "fsub (fadd 576 8) (preimage_padded_len (int L))"
  define kO where "kO = (nat ?sO + i) mod 576"
  define kN where "kN = (nat ?sN + i) mod 576"
  define lenLo where "lenLo = fmul (int L) 8 mod 256"
  define lenHi where "lenHi = fmul (int L) 8 div 256 mod 256"
  define Ev where "Ev = (if i < 512 then preimg ! i else 0)"
  define Ov where "Ov = (if kO = 0 then 128 else (0::int))"
  define Nv where "Nv = (if kN = 6 then lenHi else if kN = 7 then lenLo else 0)"
  have P: "L + 9 \<le> P" "P \<le> 576"
    unfolding P_def by (rule padded_len_bounds [OF L(2)])+
  have kO: "kO < 576" and kN: "kN < 576" by (simp_all add: kO_def kN_def)
  have unfold: "from_address_hash_preimage_padded preimg (int L) ! i = fadd (fadd Ev Ov) Nv"
    using i kO kN fsub_nonneg [of 576 "int L"]
      fsub_nonneg [of "fadd 576 8" "preimage_padded_len (int L)"]
    unfolding kO_def kN_def Ev_def Ov_def Nv_def lenLo_def lenHi_def
    by (simp add: from_address_hash_preimage_padded_def Let_def VarShiftLeft_nth del: upt_Suc)
  have lb: "fmul (int L) 8 = int (8 * L)"
    using L by (simp add: fmul_def p_field_def)
  have lo: "lenLo = int (8 * L mod 256)"
    unfolding lenLo_def lb by (simp add: zmod_int)
  have hi: "lenHi = int (8 * L div 256 mod 256)"
    unfolding lenHi_def lb by (simp add: zmod_int zdiv_int)
  have lob: "0 \<le> lenLo \<and> lenLo < 256" unfolding lo by simp
  have hib: "0 \<le> lenHi \<and> lenHi < 256" unfolding hi by simp
  have Ev': "Ev = (if i < L then msg ! i else 0)"
    using pre [of i] L by (simp add: Ev_def)
  have Ov': "Ov = (if i = L then 128 else 0)"
    using one_index [OF L i] by (simp add: Ov_def kO_def)
  have kN': "kN = (if P \<le> i + 8 then i + 8 - P else 584 - P + i)"
    unfolding kN_def P_def by (rule len_index [OF L(2) i])
  have Nv': "Nv = (if i + 2 = P then lenHi else if i + 1 = P then lenLo else 0)"
  proof (cases "P \<le> i + 8")
    case True
    then have "kN = i + 8 - P" by (simp add: kN')
    then show ?thesis using True by (auto simp: Nv_def)
  next
    case False
    then have "kN = 584 - P + i" by (simp add: kN')
    then have "8 \<le> kN" using P by simp
    then show ?thesis using False by (auto simp: Nv_def)
  qed
  have z: "fadd (fadd 0 0) 0 = 0" "fadd (fadd 0 128) 0 = 128"
    by (simp_all add: fadd_def p_field_def)
  have single: "fadd (fadd 0 0) x = x" "fadd (fadd x 0) 0 = x" if "0 \<le> x \<and> x < 256" for x
    using that by (simp_all add: fadd_def p_field_def)
  consider (a) "i < L" | (b) "i = L" | (c) "L < i" "i + 2 = P" | (d) "L < i" "i + 1 = P"
    | (e) "L < i" "i + 2 \<noteq> P" "i + 1 \<noteq> P"
    by linarith
  then show ?thesis
  proof cases
    case a
    then have "Ev = msg ! i" "Ov = 0" "Nv = 0" using P by (simp_all add: Ev' Ov' Nv')
    then show ?thesis unfolding unfold using a single(2) [OF bm [OF a]] by simp
  next
    case b
    then have "Ev = 0" "Ov = 128" "Nv = 0" using P by (simp_all add: Ev' Ov' Nv')
    then show ?thesis unfolding unfold using b z by simp
  next
    case c
    then have "Ev = 0" "Ov = 0" "Nv = lenHi" by (simp_all add: Ev' Ov' Nv')
    then show ?thesis unfolding unfold using c single(1) [OF hib] by (simp add: hi)
  next
    case d
    then have "Ev = 0" "Ov = 0" "Nv = lenLo" by (simp_all add: Ev' Ov' Nv')
    then show ?thesis unfolding unfold using d single(1) [OF lob] by (simp add: lo)
  next
    case e
    then have "Ev = 0" "Ov = 0" "Nv = 0" by (simp_all add: Ev' Ov' Nv')
    then show ?thesis unfolding unfold using e z by simp
  qed
qed


lemma nth_mid:
  "(a @ c # b) ! i =
    (if i < length a then a ! i else if i = length a then c else b ! (i - length a - 1))"
  by (auto simp: nth_append nth_Cons')

lemma nth_fill:
  "(replicate k z @ b) ! i = (if i < k then z else b ! (i - k))"
  by (simp add: nth_append)

lemma sha256_pad_nth:
  assumes L: "length msg = L" "L \<le> 511"
  defines "P \<equiv> (L + 72) div 64 * 64"
  shows "length (sha256_pad msg) = P"
    and "i < P \<Longrightarrow> sha256_pad msg ! i =
      (if i < L then msg ! i
       else if i = L then 128
       else if i + 2 = P then int (8 * L div 256 mod 256)
       else if i + 1 = P then int (8 * L mod 256)
       else 0)"
proof -
  define k where "k = (64 - (L + 9) mod 64) mod 64"
  have P: "P = L + 9 + k" unfolding P_def k_def by (rule pad_len)
  have pad: "sha256_pad msg = msg @ 128 # replicate k 0 @ be64 (8 * L)"
    by (simp add: sha256_pad_def k_def L(1))
  show "length (sha256_pad msg) = P" by (simp add: pad P L(1))
  assume i: "i < P"
  have v: "8 * L < 65536" using L(2) by simp
  consider (a) "i < L" | (b) "i = L" | (c) "L < i" "i < L + 1 + k" | (d) "L + 1 + k \<le> i"
    by linarith
  then show "sha256_pad msg ! i =
      (if i < L then msg ! i
       else if i = L then 128
       else if i + 2 = P then int (8 * L div 256 mod 256)
       else if i + 1 = P then int (8 * L mod 256)
       else 0)"
  proof cases
    case a
    then show ?thesis by (simp add: pad nth_mid L(1))
  next
    case b
    then show ?thesis by (simp add: pad nth_mid L(1))
  next
    case c
    then have "i - L - 1 < k" by linarith
    then have "sha256_pad msg ! i = 0"
      using c by (simp add: pad nth_mid nth_fill L(1))
    then show ?thesis using c P by simp
  next
    case d
    define j where "j = i - (L + 1 + k)"
    have j: "j < 8" "i = L + 1 + k + j" using d i P by (simp_all add: j_def)
    have "\<not> i - L - 1 < k" "i - L - 1 - k = j" using d j by linarith+
    then have "sha256_pad msg ! i = be64 (8 * L) ! j"
      using d by (simp add: pad nth_mid nth_fill L(1))
    also have "\<dots> = (if j = 6 then int (8 * L div 256 mod 256)
        else if j = 7 then int (8 * L mod 256) else 0)"
      by (rule be64_nth [OF v j(1)])
    finally have val: "sha256_pad msg ! i = (if j = 6 then int (8 * L div 256 mod 256)
        else if j = 7 then int (8 * L mod 256) else 0)" .
    have e: "\<not> i < L" "i \<noteq> L" "i + 2 = P \<longleftrightarrow> j = 6" "i + 1 = P \<longleftrightarrow> j = 7"
      using j(2) P by linarith+
    show ?thesis unfolding val by (simp only: e if_False)
  qed
qed

lemma length_binding_preimage:
  assumes "fi + fl \<le> length hdr" "ai + al \<le> length hdr"
  shows "length (binding_preimage (take fl (drop fi hdr)) (take al (drop ai hdr))) = fl + 1 + al"
proof -
  have "length (take fl (drop fi hdr)) = fl" "length (take al (drop ai hdr)) = al"
    using assms by simp_all
  then show ?thesis by (simp add: binding_preimage_def)
qed

lemma binding_preimage_nth:
  assumes "fi + fl \<le> length hdr" "ai + al \<le> length hdr" "j < fl + 1 + al"
  shows "binding_preimage (take fl (drop fi hdr)) (take al (drop ai hdr)) ! j =
    (if j < fl then ascii_lower (hdr ! (fi + j))
     else if j = fl then 124
     else ascii_lower (hdr ! (ai + (j - fl - 1))))"
proof -
  have lf: "length (take fl (drop fi hdr)) = fl" and la: "length (take al (drop ai hdr)) = al"
    using assms by simp_all
  have f: "map ascii_lower (take fl (drop fi hdr)) ! j = ascii_lower (hdr ! (fi + j))"
    if "j < fl"
    using that assms by simp
  have a: "map ascii_lower (take al (drop ai hdr)) ! (j - fl - 1)
      = ascii_lower (hdr ! (ai + (j - fl - 1)))" if "fl < j"
  proof -
    have "j - fl - 1 < al" using that assms(3) by linarith
    then show ?thesis using assms by simp
  qed
  have bp: "binding_preimage (take fl (drop fi hdr)) (take al (drop ai hdr))
      = map ascii_lower (take fl (drop fi hdr)) @ 124 # map ascii_lower (take al (drop ai hdr))"
    by (simp add: binding_preimage_def)
  have n: "binding_preimage (take fl (drop fi hdr)) (take al (drop ai hdr)) ! j =
    (if j < fl then map ascii_lower (take fl (drop fi hdr)) ! j
     else if j = fl then 124
     else map ascii_lower (take al (drop ai hdr)) ! (j - fl - 1))"
    unfolding bp nth_mid by (simp only: length_map lf)
  consider "j < fl" | "j = fl" | "fl < j" by linarith
  then show ?thesis
  proof cases
    case 1
    then show ?thesis unfolding n using f by simp
  next
    case 2
    then show ?thesis unfolding n by simp
  next
    case 3
    then show ?thesis unfolding n using a by simp
  qed
qed

lemma lowered_window:
  assumes "is_bytes hdr" "255 \<le> length hdr" "s + l \<le> length hdr" "j < 255"
  shows "map lower_case (SelectSubArray hdr (int s) (int l) 255) ! j =
    (if j < l then ascii_lower (hdr ! (s + j)) else 0)"
proof -
  have w: "SelectSubArray hdr (int s) (int l) 255 ! j = (if j < l then hdr ! (s + j) else 0)"
    by (rule SelectSubArray_window) (use assms in simp_all)
  have "lower_case (hdr ! (s + j)) = ascii_lower (hdr ! (s + j))" if "j < l"
    by (rule lower_case_byte) (use is_bytes_nth [OF assms(1), of "s + j"] that assms(3) in simp_all)
  moreover have "lower_case 0 = 0" by (simp add: lower_case_byte)
  ultimately show ?thesis using assms(4) by (simp add: w)
qed

lemma window_bytes:
  assumes "is_bytes hdr" "255 \<le> length hdr"
  shows "list_all (Num2Bits 8) (SelectSubArray hdr (int s) l 255)"
  unfolding list_all_length
proof (intro allI impI)
  fix i assume "i < length (SelectSubArray hdr (int s) l 255)"
  then have "i < 255" by simp
  from SelectSubArray_byte [OF assms(1) this assms(2), of "int s" l]
  show "Num2Bits 8 (SelectSubArray hdr (int s) l 255 ! i)"
    by (simp add: Num2Bits_def)
qed

lemma take_padded_eq:
  assumes "is_bytes hdr" and "255 < length hdr"
    and "fl \<le> 255" and "al \<le> 255"
    and "fi + fl \<le> length hdr" and "ai + al \<le> length hdr"
  defines "msg \<equiv> binding_preimage (take fl (drop fi hdr)) (take al (drop ai hdr))"
  defines "fromL \<equiv> map lower_case (SelectSubArray hdr (int fi) (int fl) 255)"
  defines "acctL \<equiv> map lower_case (SelectSubArray hdr (int ai) (int al) 255)"
  defines "L \<equiv> fl + 1 + al"
  shows "take ((L + 72) div 64 * 64)
      (from_address_hash_preimage_padded (preimage fromL acctL (int fl)) (int L))
    = sha256_pad msg"
proof -
  let ?P = "(L + 72) div 64 * 64"
  have len: "255 \<le> length hdr" using assms(2) by simp
  have L: "1 \<le> L" "L \<le> 511" using assms(3,4) by (simp_all add: L_def)
  have lm: "length msg = L"
    unfolding msg_def L_def by (rule length_binding_preimage [OF assms(5,6)])
  have fromL: "fromL ! j = (if j < fl then ascii_lower (hdr ! (fi + j)) else 0)" if "j < 255" for j
    unfolding fromL_def by (rule lowered_window [OF assms(1) len assms(5) that])
  have acctL: "acctL ! j = (if j < al then ascii_lower (hdr ! (ai + j)) else 0)" if "j < 255" for j
    unfolding acctL_def by (rule lowered_window [OF assms(1) len assms(6) that])
  have hb: "0 \<le> ascii_lower (hdr ! n) \<and> ascii_lower (hdr ! n) < 256" if "n < length hdr" for n
    using is_bytes_nth [OF assms(1) that] by (simp add: ascii_lower_byte)
  have bf: "0 \<le> fromL ! j \<and> fromL ! j < 256" if "j < fl" for j
  proof -
    have "j < 255" "fi + j < length hdr" using that assms(3,5) by linarith+
    then show ?thesis using that hb by (simp add: fromL)
  qed
  have ba: "0 \<le> acctL ! j \<and> acctL ! j < 256" if "j < al" for j
  proof -
    have "j < 255" "ai + j < length hdr" using that assms(4,6) by linarith+
    then show ?thesis using that hb by (simp add: acctL)
  qed
  have zf: "fromL ! j = 0" if "fl \<le> j" "j < 255" for j
    using that by (simp add: fromL)
  have za: "acctL ! j = 0" if "al \<le> j" "j < 255" for j
    using that by (simp add: acctL)
  have msg_nth: "msg ! j =
    (if j < fl then ascii_lower (hdr ! (fi + j))
     else if j = fl then 124
     else ascii_lower (hdr ! (ai + (j - fl - 1))))" if "j < L" for j
    unfolding msg_def by (rule binding_preimage_nth [OF assms(5,6)]) (use that in \<open>simp add: L_def\<close>)
  have pre: "preimage fromL acctL (int fl) ! j = (if j < L then msg ! j else 0)" if "j < 512" for j
  proof -
    have p: "preimage fromL acctL (int fl) ! j =
      (if j < fl then fromL ! j
       else if j = fl then 124
       else if j < fl + 1 + al then acctL ! (j - fl - 1)
       else 0)"
      by (rule preimage_nth [OF assms(3,4) that bf ba zf za])
    consider "j < fl" | "j = fl" | "fl < j" "j < L" | "L \<le> j" by linarith
    then show ?thesis
    proof cases
      case 1
      then have "j < 255" "j < L" using assms(3) by (simp_all add: L_def)
      then show ?thesis unfolding p using 1 by (simp add: msg_nth fromL)
    next
      case 2
      then have "j < L" by (simp add: L_def)
      then show ?thesis unfolding p using 2 by (simp add: msg_nth)
    next
      case 3
      then have "j - fl - 1 < al" "j - fl - 1 < 255" using assms(4) by (simp_all add: L_def)
      then show ?thesis unfolding p using 3 by (simp add: msg_nth acctL L_def)
    next
      case 4
      then show ?thesis unfolding p by (simp add: L_def)
    qed
  qed
  have bm: "0 \<le> msg ! j \<and> msg ! j < 256" if "j < L" for j
  proof -
    consider "j < fl" | "j = fl" | "fl < j" by linarith
    then show ?thesis
    proof cases
      case 1
      then have "fi + j < length hdr" using assms(5) by linarith
      then show ?thesis unfolding msg_nth [OF that] using 1 hb by simp
    next
      case 2
      then show ?thesis unfolding msg_nth [OF that] by simp
    next
      case 3
      then have "ai + (j - fl - 1) < length hdr" using that assms(6) by (simp add: L_def)
      then show ?thesis unfolding msg_nth [OF that] using 3 hb by simp
    qed
  qed
  have Pb: "?P \<le> 576" by (rule padded_len_bounds(2) [OF L(2)])
  show ?thesis
  proof (rule nth_equalityI)
    show "length (take ?P (from_address_hash_preimage_padded (preimage fromL acctL (int fl)) (int L)))
        = length (sha256_pad msg)"
      using Pb sha256_pad_nth(1) [OF lm L(2)] by simp
  next
    fix i
    assume "i < length (take ?P (from_address_hash_preimage_padded (preimage fromL acctL (int fl)) (int L)))"
    then have i: "i < ?P" by simp
    then have i': "i < 576" using Pb by linarith
    have "take ?P (from_address_hash_preimage_padded (preimage fromL acctL (int fl)) (int L)) ! i
        = from_address_hash_preimage_padded (preimage fromL acctL (int fl)) (int L) ! i"
      using i by simp
    also have "\<dots> = (if i < L then msg ! i
       else if i = L then 128
       else if i + 2 = ?P then int (8 * L div 256 mod 256)
       else if i + 1 = ?P then int (8 * L mod 256)
       else 0)"
      by (rule padded_nth [OF L i' pre bm])
    also have "\<dots> = sha256_pad msg ! i"
      by (rule sha256_pad_nth(2) [OF lm L(2) i, symmetric])
    finally show "take ?P (from_address_hash_preimage_padded (preimage fromL acctL (int fl)) (int L)) ! i
        = sha256_pad msg ! i" .
  qed
qed

lemma preimage_len_small:
  assumes "0 \<le> f" "f < 256" "0 \<le> a" "a < 256"
  shows "preimage_len f a = f + 1 + a"
  using assms by (simp add: preimage_len_def fadd_def p_field_def)

lemma hash_range_checks:
  assumes "fl \<le> 255" "al \<le> 255"
  shows "length_range_checks (int fl) (int al)"
    and "preimage_len (int fl) (int al) = int (fl + 1 + al)"
    and "Num2Bits 16 (fmul (preimage_len (int fl) (int al)) 8)"
proof -
  show pl: "preimage_len (int fl) (int al) = int (fl + 1 + al)"
    using assms by (simp add: preimage_len_small)
  show "length_range_checks (int fl) (int al)"
    using assms unfolding length_range_checks_def pl by (simp add: Num2Bits_def)
  show "Num2Bits 16 (fmul (preimage_len (int fl) (int al)) 8)"
    using assms unfolding pl by (simp add: Num2Bits_def fmul_def p_field_def)
qed

text \<open>
  C3. For a header of bytes that holds \<open>fromEmail\<close> (length at most 255) at
  \<open>from_addr_idx\<close> and \<open>accountId\<close> (length at most 255) at
  \<open>subject_account_id_idx\<close>, the hash output of the circuit is the SHA-256 digest of
  \<open>lower(fromEmail) || 0x7C || lower(accountId)\<close>: the padded message the circuit
  builds is the standard padding of that preimage. Lowercasing adds 32 to the bytes 65
  to 90 and leaves every other byte as it is, so inputs that differ only in ASCII letter
  case have the same digest.
\<close>

theorem sender_binding_hash:
  assumes "is_bytes hdr" and "255 < length hdr"
    and "fl \<le> 255" and "al \<le> 255"
    and "fi + fl \<le> length hdr" and "ai + al \<le> length hdr"
  shows "from_address_hash sha256_blocks hdr (int fi) (int fl) (int ai) (int al)
      = Some (sha256_digest sha256_blocks
          (binding_preimage (take fl (drop fi hdr)) (take al (drop ai hdr))))
    \<and> (\<forall>b. 0 \<le> b \<and> b < 256 \<longrightarrow> lower_case b = (if 65 \<le> b \<and> b \<le> 90 then b + 32 else b))
    \<and> (\<forall>f1 f2 a1 a2. map lower_case f1 = map lower_case f2 \<and> map lower_case a1 = map lower_case a2
          \<and> is_bytes f1 \<and> is_bytes f2 \<and> is_bytes a1 \<and> is_bytes a2
        \<longrightarrow> sha256_digest sha256_blocks (binding_preimage f1 a1)
          = sha256_digest sha256_blocks (binding_preimage f2 a2))"
proof (intro conjI allI impI)
  let ?L = "fl + 1 + al"
  let ?P = "(?L + 72) div 64 * 64"
  have len: "255 \<le> length hdr" using assms(2) by simp
  have L: "?L \<le> 511" using assms(3,4) by simp
  note rc = hash_range_checks [OF assms(3,4)]
  have pl: "preimage_padded_len (int ?L) = int ?P" by (rule padded_len_nat [OF L])
  have checks: "length_range_checks (int fl) (int al)
      \<and> list_all (Num2Bits 8) (SelectSubArray hdr (int fi) (int fl) 255)
      \<and> list_all (Num2Bits 8) (SelectSubArray hdr (int ai) (int al) 255)
      \<and> isBlock_sum_ok (preimage_len (int fl) (int al))
      \<and> Num2Bits 16 (fmul (preimage_len (int fl) (int al)) 8)"
    using rc(1,3) window_bytes [OF assms(1) len] isBlock_sum_ok_always by simp
  have "from_address_hash sha256_blocks hdr (int fi) (int fl) (int ai) (int al)
      = Some (sha256_blocks (take ?P (from_address_hash_preimage_padded
          (preimage (map lower_case (SelectSubArray hdr (int fi) (int fl) 255))
            (map lower_case (SelectSubArray hdr (int ai) (int al) 255)) (int fl)) (int ?L))))"
    unfolding from_address_hash_def Let_def Sha256Bytes_def
    by (simp only: checks if_True simp_thms rc(2) pl nat_int isBlock_sum_ok_always
        rc(3) [unfolded rc(2)])
  also have "\<dots> = Some (sha256_digest sha256_blocks
          (binding_preimage (take fl (drop fi hdr)) (take al (drop ai hdr))))"
    unfolding sha256_digest_def
    by (simp only: take_padded_eq [OF assms])
  finally show "from_address_hash sha256_blocks hdr (int fi) (int fl) (int ai) (int al)
      = Some (sha256_digest sha256_blocks
          (binding_preimage (take fl (drop fi hdr)) (take al (drop ai hdr))))" .
next
  fix b :: int
  assume "0 \<le> b \<and> b < 256"
  then show "lower_case b = (if 65 \<le> b \<and> b \<le> 90 then b + 32 else b)"
    by (simp add: lower_case_byte ascii_lower_def)
next
  fix f1 f2 a1 a2
  assume a: "map lower_case f1 = map lower_case f2 \<and> map lower_case a1 = map lower_case a2
          \<and> is_bytes f1 \<and> is_bytes f2 \<and> is_bytes a1 \<and> is_bytes a2"
  have eq: "map ascii_lower xs = map lower_case xs" if "is_bytes xs" for xs
    using that by (auto simp: is_bytes_def list_all_iff lower_case_byte)
  from a have "map ascii_lower f1 = map ascii_lower f2" "map ascii_lower a1 = map ascii_lower a2"
    by (simp_all add: eq)
  then show "sha256_digest sha256_blocks (binding_preimage f1 a1)
          = sha256_digest sha256_blocks (binding_preimage f2 a2)"
    by (simp add: binding_preimage_def)
qed

theorem sender_binding_hash_witness:
  "from_address_hash (\<lambda>x. x) ([65, 64, 98, 66, 111] @ replicate 300 0) 0 3 3 2
      = Some ([97, 64, 98, 124, 98, 111, 128] @ replicate 49 0 @ [0, 0, 0, 0, 0, 0, 0, 48])
    \<and> lower_case 65 = 97"
proof -
  have b: "is_bytes ([65, 64, 98, 66, 111] @ replicate 300 0)"
    by (simp add: is_bytes_def list_all_iff)
  have be: "be64 48 = [0, 0, 0, 0, 0, 0, 0, 48]"
    by (simp add: be64_def upt_conv_Cons)
  have m: "sha256_digest (\<lambda>x. x) (binding_preimage [65, 64, 98] [66, 111])
      = [97, 64, 98, 124, 98, 111, 128] @ replicate 49 0 @ [0, 0, 0, 0, 0, 0, 0, 48]"
    by (simp add: sha256_digest_def binding_preimage_def sha256_pad_def be ascii_lower_def)
  note t = sender_binding_hash [of "[65, 64, 98, 66, 111] @ replicate 300 0" 3 2 0 3 "\<lambda>x. x", OF b]
  have 1: "from_address_hash (\<lambda>x. x) ([65, 64, 98, 66, 111] @ replicate 300 0) 0 3 3 2
      = Some ([97, 64, 98, 124, 98, 111, 128] @ replicate 49 0 @ [0, 0, 0, 0, 0, 0, 0, 48])"
    using t [THEN conjunct1] by (simp add: m)
  have 2: "lower_case 65 = 97"
    using t [THEN conjunct2, THEN conjunct1, rule_format, of 65] by simp
  show ?thesis using 1 2 by (rule conjI)
qed

lemma be_int_snoc: "be_int (bs @ [b]) = be_int bs * 256 + unat b"
  by (simp add: be_int_def)

lemma be_int_rev: "be_int bs = readUIntLE (rev bs)"
  by (induction bs rule: rev_induct) (simp_all add: be_int_snoc, simp add: be_int_def)

lemma be_bytes_rev: "be_bytes n v = rev (le_bytes n v)"
proof (induction n arbitrary: v)
  case 0
  then show ?case by (simp add: be_bytes_def)
next
  case (Suc n)
  have "be_bytes (Suc n) v = map (\<lambda>j. of_nat (v div 256 ^ (n - j))) [0..<n] @ [of_nat v]"
    by (simp add: be_bytes_def)
  also have "map (\<lambda>j. of_nat (v div 256 ^ (n - j)) :: byte) [0..<n]
      = map (\<lambda>j. of_nat ((v div 256) div 256 ^ (n - 1 - j))) [0..<n]"
  proof (rule map_cong [OF refl])
    fix j assume "j \<in> set [0..<n]"
    then have "n - j = Suc (n - 1 - j)" by simp
    then show "(of_nat (v div 256 ^ (n - j)) :: byte) = of_nat ((v div 256) div 256 ^ (n - 1 - j))"
      by (simp add: div_mult2_eq)
  qed
  also have "\<dots> = be_bytes n (v div 256)" by (simp add: be_bytes_def)
  also have "(of_nat v :: byte) = of_nat (v mod 256)"
    by (simp add: word_eq_iff_unsigned [where ?'a = nat] unat_of_nat)
  finally show ?case by (simp add: Suc)
qed

lemma be_bytes_be_int: "be_bytes (length bs) (be_int bs) = bs"
  using le_bytes_readUIntLE [of "rev bs"] by (simp add: be_bytes_rev be_int_rev)

lemma chunks_concat:
  "concat (map (\<lambda>i. take c (drop (i * c) T)) [0..<n]) = take (n * c) T"
proof (induction n)
  case 0
  then show ?case by simp
next
  case (Suc n)
  have e: "Suc n * c = n * c + c" by simp
  have "take (Suc n * c) T = take (n * c) T @ take c (drop (n * c) T)"
    unfolding e by (rule take_add)
  then show ?case using Suc by simp
qed

lemma pad_right_chunk:
  assumes "k + c \<le> M"
  shows "pad_right c (take c (drop k s)) = take c (drop k (s @ replicate M 0))"
proof (cases "k \<le> length s")
  case True
  then show ?thesis using assms by (auto simp: pad_right_def min_def)
next
  case False
  then show ?thesis using assms by (auto simp: pad_right_def min_def)
qed

lemma length_pad_right: "length bs \<le> n \<Longrightarrow> length (pad_right n bs) = n"
  by (simp add: pad_right_def)


lemma unpack_pack_elements:
  assumes "length s \<le> 255"
  shows "unpack (map (pack_element s) [0..<9]) (length s) = s"
proof -
  let ?T = "s @ replicate 279 0"
  have chunk: "be_bytes 31 (pack_element s i) = take 31 (drop (i * 31) ?T)" if "i < 9" for i
  proof -
    let ?c = "pad_right 31 (take 31 (drop (i * 31) s))"
    have l: "length ?c = 31" by (rule length_pad_right) simp
    have "be_bytes (length ?c) (be_int ?c) = ?c" by (rule be_bytes_be_int)
    then have "be_bytes 31 (pack_element s i) = ?c"
      unfolding l by (simp add: pack_element_def)
    also have "?c = take 31 (drop (i * 31) ?T)"
      by (rule pad_right_chunk) (use that in simp)
    finally show ?thesis .
  qed
  have "map (be_bytes 31) (map (pack_element s) [0..<9])
      = map (\<lambda>i. take 31 (drop (i * 31) ?T)) [0..<9]"
    by (simp add: chunk del: upt_Suc)
  then have "concat (map (be_bytes 31) (map (pack_element s) [0..<9])) = take (9 * 31) ?T"
    by (simp only: chunks_concat)
  then show ?thesis
    using assms by (simp add: unpack_def)
qed

lemma pack_element_past_length:
  assumes "length s \<le> i * 31"
  shows "pack_element s i = 0"
proof -
  have "be_int (replicate n 0) = 0" for n
    by (induction n) (simp_all add: be_int_def replicate_append_same [symmetric] del: replicate_Suc, simp add: be_int_def)
  then show ?thesis using assms by (simp add: pack_element_def pad_right_def)
qed

text \<open>
  C4. For every byte string of length at most 255 (the substring of a buffer at
  \<open>start\<close>), \<open>pack\<close> gives nine elements, element \<open>i\<close> the big-endian integer of the
  bytes \<open>[i * 31, min ((i + 1) * 31) length)\<close> zero-extended on the right and 0 when
  \<open>i * 31 \<ge> length\<close>, and \<open>unpack\<close> of them, cut at \<open>length\<close>, is the byte string.
\<close>

theorem pack_unpack_roundtrip:
  assumes "len \<le> 255" and "start + len \<le> length buffer"
  shows "\<exists>elems. pack buffer start len = Inr elems
      \<and> length elems = 9
      \<and> unpack elems len = take len (drop start buffer)
      \<and> (\<forall>i<9. elems ! i =
            be_int (pad_right 31 (take 31 (drop (i * 31) (take len (drop start buffer))))))
      \<and> (\<forall>i<9. len \<le> i * 31 \<longrightarrow> elems ! i = 0)"
proof -
  let ?s = "take len (drop start buffer)"
  have ls: "length ?s = len" using assms(2) by simp
  have p: "pack buffer start len = Inr (map (pack_element ?s) [0..<9])"
    using assms(1) by (simp add: pack_def)
  have "unpack (map (pack_element ?s) [0..<9]) (length ?s) = ?s"
    by (rule unpack_pack_elements) (use assms(1) ls in simp)
  then have u: "unpack (map (pack_element ?s) [0..<9]) len = ?s"
    unfolding ls .
  have e: "map (pack_element ?s) [0..<9] ! i = pack_element ?s i" if "i < 9" for i
    using that by (simp del: upt_Suc)
  have z: "map (pack_element ?s) [0..<9] ! i = 0" if "i < 9" "len \<le> i * 31" for i
    unfolding e [OF that(1)] by (rule pack_element_past_length) (use that ls in simp)
  have e': "map (pack_element ?s) [0..<9] ! i
      = be_int (pad_right 31 (take 31 (drop (i * 31) ?s)))" if "i < 9" for i
    unfolding e [OF that] by (simp only: pack_element_def)
  have l9: "length (map (pack_element ?s) [0..<9]) = 9" by simp
  show ?thesis
    using p l9 u e' z by blast
qed

theorem pack_unpack_roundtrip_witness:
  "pack [104, 105] 0 2 = Inr (map (pack_element [104, 105]) [0..<9])
    \<and> unpack (map (pack_element [104, 105]) [0..<9]) 2 = [104, 105]
    \<and> pack (replicate 256 1) 0 256 = Inl LengthOutOfRange"
  using pack_unpack_roundtrip [of 2 0 "[104, 105]"]
  by (auto simp: pack_def)







lemma digest_code_simps [simp]:
  "digest_code [] = 0" "digest_code (b # bs) = b + 1 + 257 * digest_code bs"
  by (simp_all add: digest_code_def)




lemma is_bytes_append [simp]: "is_bytes (xs @ ys) \<longleftrightarrow> is_bytes xs \<and> is_bytes ys"
  by (simp add: is_bytes_def)












lemma find_upt_first:
  assumes "P i" and "i \<le> n" and "\<And>j. j < i \<Longrightarrow> \<not> P j"
  shows "find P [0..<Suc n] = Some i"
proof -
  have "\<exists>k<length [0..<Suc n]. P ([0..<Suc n] ! k) \<and> i = [0..<Suc n] ! k
      \<and> (\<forall>j<k. \<not> P ([0..<Suc n] ! j))"
  proof (intro exI [of _ i] conjI allI impI)
    show "i < length [0..<Suc n]" using assms(2) by simp
    show "P ([0..<Suc n] ! i)" using assms(1,2) by (simp add: nth_upt del: upt_Suc)
    show "i = [0..<Suc n] ! i" using assms(2) by (simp add: nth_upt del: upt_Suc)
    fix j assume "j < i"
    then show "\<not> P ([0..<Suc n] ! j)" using assms(2,3) by (simp add: nth_upt del: upt_Suc)
  qed
  then show ?thesis by (simp only: find_Some_iff)
qed

lemma example_decoded: "toString_utf8 [116, 111, 58, 120, 13, 10, 102, 114, 111, 109, 58, 74, 111, 115, 195, 169, 32, 60, 97, 64, 98, 46, 99, 62, 13, 10, 115, 117, 98, 106, 101, 99, 116, 58, 114, 101, 99, 111, 118, 101, 114, 45, 114, 49, 32, 97, 46, 110, 101, 97, 114, 32, 101, 100, 50, 53, 53, 49, 57, 58, 75, 13, 10, 100, 97, 116, 101, 58, 77, 111, 110, 44, 32, 49, 32, 74, 97, 110, 32, 50, 48, 50, 52, 32, 48, 48, 58, 48, 48, 58, 48, 48, 32, 43, 48, 48, 48, 48, 13, 10] = [116, 111, 58, 120, 13, 10, 102, 114, 111, 109, 58, 74, 111, 115, 233, 32, 60, 97, 64, 98, 46, 99, 62, 13, 10, 115, 117, 98, 106, 101, 99, 116, 58, 114, 101, 99, 111, 118, 101, 114, 45, 114, 49, 32, 97, 46, 110, 101, 97, 114, 32, 101, 100, 50, 53, 53, 49, 57, 58, 75, 13, 10, 100, 97, 116, 101, 58, 77, 111, 110, 44, 32, 49, 32, 74, 97, 110, 32, 50, 48, 50, 52, 32, 48, 48, 58, 48, 48, 58, 48, 48, 32, 43, 48, 48, 48, 48, 13, 10]"
  by (simp add: toString_utf8_def emit_code_point_def)

lemma example_line_none:
  "fromLineRegex_at [116, 111, 58, 120, 13, 10, 102, 114, 111, 109, 58, 74, 111, 115, 233, 32, 60, 97, 64, 98, 46, 99, 62, 13, 10, 115, 117, 98, 106, 101, 99, 116, 58, 114, 101, 99, 111, 118, 101, 114, 45, 114, 49, 32, 97, 46, 110, 101, 97, 114, 32, 101, 100, 50, 53, 53, 49, 57, 58, 75, 13, 10, 100, 97, 116, 101, 58, 77, 111, 110, 44, 32, 49, 32, 74, 97, 110, 32, 50, 48, 50, 52, 32, 48, 48, 58, 48, 48, 58, 48, 48, 32, 43, 48, 48, 48, 48, 13, 10] 0 = None" "fromLineRegex_at [116, 111, 58, 120, 13, 10, 102, 114, 111, 109, 58, 74, 111, 115, 233, 32, 60, 97, 64, 98, 46, 99, 62, 13, 10, 115, 117, 98, 106, 101, 99, 116, 58, 114, 101, 99, 111, 118, 101, 114, 45, 114, 49, 32, 97, 46, 110, 101, 97, 114, 32, 101, 100, 50, 53, 53, 49, 57, 58, 75, 13, 10, 100, 97, 116, 101, 58, 77, 111, 110, 44, 32, 49, 32, 74, 97, 110, 32, 50, 48, 50, 52, 32, 48, 48, 58, 48, 48, 58, 48, 48, 32, 43, 48, 48, 48, 48, 13, 10] 1 = None"
  "fromLineRegex_at [116, 111, 58, 120, 13, 10, 102, 114, 111, 109, 58, 74, 111, 115, 233, 32, 60, 97, 64, 98, 46, 99, 62, 13, 10, 115, 117, 98, 106, 101, 99, 116, 58, 114, 101, 99, 111, 118, 101, 114, 45, 114, 49, 32, 97, 46, 110, 101, 97, 114, 32, 101, 100, 50, 53, 53, 49, 57, 58, 75, 13, 10, 100, 97, 116, 101, 58, 77, 111, 110, 44, 32, 49, 32, 74, 97, 110, 32, 50, 48, 50, 52, 32, 48, 48, 58, 48, 48, 58, 48, 48, 32, 43, 48, 48, 48, 48, 13, 10] 2 = None" "fromLineRegex_at [116, 111, 58, 120, 13, 10, 102, 114, 111, 109, 58, 74, 111, 115, 233, 32, 60, 97, 64, 98, 46, 99, 62, 13, 10, 115, 117, 98, 106, 101, 99, 116, 58, 114, 101, 99, 111, 118, 101, 114, 45, 114, 49, 32, 97, 46, 110, 101, 97, 114, 32, 101, 100, 50, 53, 53, 49, 57, 58, 75, 13, 10, 100, 97, 116, 101, 58, 77, 111, 110, 44, 32, 49, 32, 74, 97, 110, 32, 50, 48, 50, 52, 32, 48, 48, 58, 48, 48, 58, 48, 48, 32, 43, 48, 48, 48, 48, 13, 10] 3 = None"
  "fromLineRegex_at [116, 111, 58, 120, 13, 10, 102, 114, 111, 109, 58, 74, 111, 115, 233, 32, 60, 97, 64, 98, 46, 99, 62, 13, 10, 115, 117, 98, 106, 101, 99, 116, 58, 114, 101, 99, 111, 118, 101, 114, 45, 114, 49, 32, 97, 46, 110, 101, 97, 114, 32, 101, 100, 50, 53, 53, 49, 57, 58, 75, 13, 10, 100, 97, 116, 101, 58, 77, 111, 110, 44, 32, 49, 32, 74, 97, 110, 32, 50, 48, 50, 52, 32, 48, 48, 58, 48, 48, 58, 48, 48, 32, 43, 48, 48, 48, 48, 13, 10] 4 = None" "fromLineRegex_at [116, 111, 58, 120, 13, 10, 102, 114, 111, 109, 58, 74, 111, 115, 233, 32, 60, 97, 64, 98, 46, 99, 62, 13, 10, 115, 117, 98, 106, 101, 99, 116, 58, 114, 101, 99, 111, 118, 101, 114, 45, 114, 49, 32, 97, 46, 110, 101, 97, 114, 32, 101, 100, 50, 53, 53, 49, 57, 58, 75, 13, 10, 100, 97, 116, 101, 58, 77, 111, 110, 44, 32, 49, 32, 74, 97, 110, 32, 50, 48, 50, 52, 32, 48, 48, 58, 48, 48, 58, 48, 48, 32, 43, 48, 48, 48, 48, 13, 10] 5 = None"
  by (simp_all add: fromLineRegex_at_def is_line_terminator_def ci_prefix_def ci_char_def)

lemma example_line_some: "fromLineRegex_at [116, 111, 58, 120, 13, 10, 102, 114, 111, 109, 58, 74, 111, 115, 233, 32, 60, 97, 64, 98, 46, 99, 62, 13, 10, 115, 117, 98, 106, 101, 99, 116, 58, 114, 101, 99, 111, 118, 101, 114, 45, 114, 49, 32, 97, 46, 110, 101, 97, 114, 32, 101, 100, 50, 53, 53, 49, 57, 58, 75, 13, 10, 100, 97, 116, 101, 58, 77, 111, 110, 44, 32, 49, 32, 74, 97, 110, 32, 50, 48, 50, 52, 32, 48, 48, 58, 48, 48, 58, 48, 48, 32, 43, 48, 48, 48, 48, 13, 10] 6 = Some [102, 114, 111, 109, 58, 74, 111, 115, 233, 32, 60, 97, 64, 98, 46, 99, 62]"
  by (simp add: fromLineRegex_at_def is_line_terminator_def ci_prefix_def ci_char_def not_crlf_def)

lemma below_n:
  "j < 6 \<Longrightarrow> j = 0 \<or> j = 1 \<or> j = 2 \<or> j = 3 \<or> j = 4 \<or> j = (5::nat)"
  "j < 10 \<Longrightarrow> j = 0 \<or> j = 1 \<or> j = 2 \<or> j = 3 \<or> j = 4 \<or> j = 5 \<or> j = 6 \<or> j = 7
    \<or> j = 8 \<or> j = (9::nat)"
  "j < 11 \<Longrightarrow> j = 0 \<or> j = 1 \<or> j = 2 \<or> j = 3 \<or> j = 4 \<or> j = 5 \<or> j = 6 \<or> j = 7
    \<or> j = 8 \<or> j = 9 \<or> j = (10::nat)"
  by arith+

lemma example_line: "fromLineRegex_exec [116, 111, 58, 120, 13, 10, 102, 114, 111, 109, 58, 74, 111, 115, 233, 32, 60, 97, 64, 98, 46, 99, 62, 13, 10, 115, 117, 98, 106, 101, 99, 116, 58, 114, 101, 99, 111, 118, 101, 114, 45, 114, 49, 32, 97, 46, 110, 101, 97, 114, 32, 101, 100, 50, 53, 53, 49, 57, 58, 75, 13, 10, 100, 97, 116, 101, 58, 77, 111, 110, 44, 32, 49, 32, 74, 97, 110, 32, 50, 48, 50, 52, 32, 48, 48, 58, 48, 48, 58, 48, 48, 32, 43, 48, 48, 48, 48, 13, 10] = Some (6, [102, 114, 111, 109, 58, 74, 111, 115, 233, 32, 60, 97, 64, 98, 46, 99, 62])"
proof -
  let ?s = "[116, 111, 58, 120, 13, 10, 102, 114, 111, 109, 58, 74, 111, 115, 233, 32, 60, 97, 64, 98, 46, 99, 62, 13, 10, 115, 117, 98, 106, 101, 99, 116, 58, 114, 101, 99, 111, 118, 101, 114, 45, 114, 49, 32, 97, 46, 110, 101, 97, 114, 32, 101, 100, 50, 53, 53, 49, 57, 58, 75, 13, 10, 100, 97, 116, 101, 58, 77, 111, 110, 44, 32, 49, 32, 74, 97, 110, 32, 50, 48, 50, 52, 32, 48, 48, 58, 48, 48, 58, 48, 48, 32, 43, 48, 48, 48, 48, 13, 10] :: code_unit list"
  have "find (\<lambda>i. fromLineRegex_at ?s i \<noteq> None) [0..<Suc (length ?s)] = Some 6"
  proof (rule find_upt_first)
    show "fromLineRegex_at ?s 6 \<noteq> None" by (simp add: example_line_some)
    show "6 \<le> length ?s" by simp
    fix j :: nat assume "j < 6"
    then show "\<not> fromLineRegex_at ?s j \<noteq> None"
      using example_line_none by (auto dest!: below_n(1))
  qed
  then show ?thesis
    unfolding fromLineRegex_exec_def by (simp only: option.case example_line_some option.map)
qed

lemma example_angle_none:
  "angleRegex_at [102, 114, 111, 109, 58, 74, 111, 115, 233, 32, 60, 97, 64, 98, 46, 99, 62] 0 = None" "angleRegex_at [102, 114, 111, 109, 58, 74, 111, 115, 233, 32, 60, 97, 64, 98, 46, 99, 62] 1 = None" "angleRegex_at [102, 114, 111, 109, 58, 74, 111, 115, 233, 32, 60, 97, 64, 98, 46, 99, 62] 2 = None"
  "angleRegex_at [102, 114, 111, 109, 58, 74, 111, 115, 233, 32, 60, 97, 64, 98, 46, 99, 62] 3 = None" "angleRegex_at [102, 114, 111, 109, 58, 74, 111, 115, 233, 32, 60, 97, 64, 98, 46, 99, 62] 4 = None" "angleRegex_at [102, 114, 111, 109, 58, 74, 111, 115, 233, 32, 60, 97, 64, 98, 46, 99, 62] 5 = None"
  "angleRegex_at [102, 114, 111, 109, 58, 74, 111, 115, 233, 32, 60, 97, 64, 98, 46, 99, 62] 6 = None" "angleRegex_at [102, 114, 111, 109, 58, 74, 111, 115, 233, 32, 60, 97, 64, 98, 46, 99, 62] 7 = None" "angleRegex_at [102, 114, 111, 109, 58, 74, 111, 115, 233, 32, 60, 97, 64, 98, 46, 99, 62] 8 = None"
  "angleRegex_at [102, 114, 111, 109, 58, 74, 111, 115, 233, 32, 60, 97, 64, 98, 46, 99, 62] 9 = None"
  by (simp_all add: angleRegex_at_def)

lemma example_angle_some: "angleRegex_at [102, 114, 111, 109, 58, 74, 111, 115, 233, 32, 60, 97, 64, 98, 46, 99, 62] 10 = Some [97, 64, 98, 46, 99]"
  by (simp add: angleRegex_at_def angle_char_def is_space_def)

lemma example_angle: "angleRegex_exec [102, 114, 111, 109, 58, 74, 111, 115, 233, 32, 60, 97, 64, 98, 46, 99, 62] = Some [97, 64, 98, 46, 99]"
proof -
  let ?s = "[102, 114, 111, 109, 58, 74, 111, 115, 233, 32, 60, 97, 64, 98, 46, 99, 62] :: code_unit list"
  have "find (\<lambda>p. angleRegex_at ?s p \<noteq> None) [0..<Suc (length ?s)] = Some 10"
  proof (rule find_upt_first)
    show "angleRegex_at ?s 10 \<noteq> None" by (simp add: example_angle_some)
    show "10 \<le> length ?s" by simp
    fix j :: nat assume "j < 10"
    then show "\<not> angleRegex_at ?s j \<noteq> None"
      using example_angle_none by (auto dest!: below_n(2))
  qed
  then show ?thesis
    unfolding angleRegex_exec_def by (simp only: option.case example_angle_some)
qed

lemma example_indexOf: "indexOf [102, 114, 111, 109, 58, 74, 111, 115, 233, 32, 60, 97, 64, 98, 46, 99, 62] [97, 64, 98, 46, 99] = Some 11"
proof -
  let ?l = "[102, 114, 111, 109, 58, 74, 111, 115, 233, 32, 60, 97, 64, 98, 46, 99, 62] :: code_unit list" and ?a = "[97, 64, 98, 46, 99] :: code_unit list"
  have "find (\<lambda>p. take (length ?a) (drop p ?l) = ?a) [0..<Suc (length ?l)] = Some 11"
  proof (rule find_upt_first)
    show "take (length ?a) (drop 11 ?l) = ?a" by simp
    show "11 \<le> length ?l" by simp
    fix j :: nat assume "j < 11"
    then have "j = 0 \<or> j = 1 \<or> j = 2 \<or> j = 3 \<or> j = 4 \<or> j = 5 \<or> j = 6 \<or> j = 7
      \<or> j = 8 \<or> j = 9 \<or> j = 10" by (rule below_n(3))
    then show "take (length ?a) (drop j ?l) \<noteq> ?a"
      by auto
  qed
  then show ?thesis by (simp only: indexOf_def)
qed

text \<open>
  C9. The header \<open>to:x\<close>, then a From line whose display name ends in an accented
  letter (the two bytes 195 169) followed by the address \<open>a@b.c\<close> in angle
  brackets, then the Subject and Date lines. The locator returns \<open>from_addr_idx = 17\<close>,
  the position of the address in the decoded string; in the header bytes the address
  starts at offset 18, and the five bytes at offset 17 are the opening bracket and
  \<open>a@b.\<close>. Only \<open>from_addr_len\<close> is a byte count.
\<close>

theorem from_offsets_are_string_indices:
  "locate_from [116, 111, 58, 120, 13, 10, 102, 114, 111, 109, 58, 74, 111, 115, 195, 169, 32, 60, 97, 64, 98, 46, 99, 62, 13, 10, 115, 117, 98, 106, 101, 99, 116, 58, 114, 101, 99, 111, 118, 101, 114, 45, 114, 49, 32, 97, 46, 110, 101, 97, 114, 32, 101, 100, 50, 53, 53, 49, 57, 58, 75, 13, 10, 100, 97, 116, 101, 58, 77, 111, 110, 44, 32, 49, 32, 74, 97, 110, 32, 50, 48, 50, 52, 32, 48, 48, 58, 48, 48, 58, 48, 48, 32, 43, 48, 48, 48, 48, 13, 10] = Inr \<lparr>out_from_start_idx = 6, out_from_addr_idx = 17, out_from_addr_len = 5\<rparr>
    \<and> take 5 (drop 17 [116, 111, 58, 120, 13, 10, 102, 114, 111, 109, 58, 74, 111, 115, 195, 169, 32, 60, 97, 64, 98, 46, 99, 62, 13, 10, 115, 117, 98, 106, 101, 99, 116, 58, 114, 101, 99, 111, 118, 101, 114, 45, 114, 49, 32, 97, 46, 110, 101, 97, 114, 32, 101, 100, 50, 53, 53, 49, 57, 58, 75, 13, 10, 100, 97, 116, 101, 58, 77, 111, 110, 44, 32, 49, 32, 74, 97, 110, 32, 50, 48, 50, 52, 32, 48, 48, 58, 48, 48, 58, 48, 48, 32, 43, 48, 48, 48, 48, 13, 10]) = ([60, 97, 64, 98, 46] :: byte list)
    \<and> take 5 (drop 18 [116, 111, 58, 120, 13, 10, 102, 114, 111, 109, 58, 74, 111, 115, 195, 169, 32, 60, 97, 64, 98, 46, 99, 62, 13, 10, 115, 117, 98, 106, 101, 99, 116, 58, 114, 101, 99, 111, 118, 101, 114, 45, 114, 49, 32, 97, 46, 110, 101, 97, 114, 32, 101, 100, 50, 53, 53, 49, 57, 58, 75, 13, 10, 100, 97, 116, 101, 58, 77, 111, 110, 44, 32, 49, 32, 74, 97, 110, 32, 50, 48, 50, 52, 32, 48, 48, 58, 48, 48, 58, 48, 48, 32, 43, 48, 48, 48, 48, 13, 10]) = ([97, 64, 98, 46, 99] :: byte list)"
proof -
  have "locate_from [116, 111, 58, 120, 13, 10, 102, 114, 111, 109, 58, 74, 111, 115, 195, 169, 32, 60, 97, 64, 98, 46, 99, 62, 13, 10, 115, 117, 98, 106, 101, 99, 116, 58, 114, 101, 99, 111, 118, 101, 114, 45, 114, 49, 32, 97, 46, 110, 101, 97, 114, 32, 101, 100, 50, 53, 53, 49, 57, 58, 75, 13, 10, 100, 97, 116, 101, 58, 77, 111, 110, 44, 32, 49, 32, 74, 97, 110, 32, 50, 48, 50, 52, 32, 48, 48, 58, 48, 48, 58, 48, 48, 32, 43, 48, 48, 48, 48, 13, 10] = Inr \<lparr>out_from_start_idx = 6, out_from_addr_idx = 17, out_from_addr_len = 5\<rparr>"
    unfolding locate_from_def Let_def example_decoded example_line
    by (simp add: example_angle example_indexOf)
  then show ?thesis by simp
qed

end
